theory Spec2Isabelle
  imports Complex_Main "HOL-Library.Log_Nat"
begin

section \<open>NASA-TLX survey: a model of \<open>main.py\<close>\<close>

text \<open>
  The program is a Qt wizard: six rating pages, each with a custom slider, an optional page of
  pairwise comparisons, and a Finish handler that computes a score and appends it to a JSON
  and a CSV log. The model keeps the program's own data (sliders, button groups, dictionaries,
  the two log files) and makes its effects explicit: every method takes the state it reads and
  returns the state it leaves, and every exception of the source is a value of \<open>error\<close>.

  Numbers. Python's \<open>int\<close> is \<open>int\<close>. A finite \<open>float\<close> is the rational number it denotes;
  the slider's arithmetic is done as Python does it, in IEEE doubles: every operation gives
  the double nearest to the exact result, a tie going to the even significand, and an
  \<open>int\<close> operand is converted to a double first. The score of a survey is the quotient of
  two integers; the record keeps the exact quotient, of which Python stores the nearest
  double.
\<close>

subsection \<open>Exceptions and dictionaries\<close>

datatype error =
    ZeroDivisionError
  | OverflowError
  | KeyError
  | ValueError
  | AttributeError
  | JSONDecodeError

text \<open>
  A Python \<open>dict\<close> keeps its keys in insertion order; \<open>d[k] = v\<close> overwrites in place when the
  key is present and appends otherwise.
\<close>

type_synonym ('k, 'v) dict = "('k \<times> 'v) list"

fun dict_set :: "('k, 'v) dict \<Rightarrow> 'k \<Rightarrow> 'v \<Rightarrow> ('k, 'v) dict" where
  "dict_set [] k v = [(k, v)]"
| "dict_set ((k', v') # d) k v =
     (if k' = k then (k, v) # d else (k', v') # dict_set d k v)"

text \<open>\<open>d[k]\<close>: raises \<open>KeyError\<close> on a missing key.\<close>

definition dict_item :: "('k, 'v) dict \<Rightarrow> 'k \<Rightarrow> error + 'v" where
  "dict_item d k = (case map_of d k of None \<Rightarrow> Inl KeyError | Some v \<Rightarrow> Inr v)"

text \<open>\<open>d.get(k, default)\<close>.\<close>

definition dict_get :: "('k, 'v) dict \<Rightarrow> 'k \<Rightarrow> 'v \<Rightarrow> 'v" where
  "dict_get d k dflt = (case map_of d k of None \<Rightarrow> dflt | Some v \<Rightarrow> v)"

definition dict_values :: "('k, 'v) dict \<Rightarrow> 'v list" where
  "dict_values d = map snd d"

definition dict_keys :: "('k, 'v) dict \<Rightarrow> 'k list" where
  "dict_keys d = map fst d"

text \<open>
  The comprehension \<open>{k: e(k) for k in ks}\<close>, evaluated left to right into the dictionary
  \<open>d\<close> built so far; the first key whose expression raises ends it.
\<close>

fun dict_comp :: "('k \<Rightarrow> error + 'v) \<Rightarrow> 'k list \<Rightarrow> ('k, 'v) dict \<Rightarrow> error + ('k, 'v) dict" where
  "dict_comp e [] d = Inr d"
| "dict_comp e (k # ks) d =
     (case e k of Inl err \<Rightarrow> Inl err | Inr v \<Rightarrow> dict_comp e ks (dict_set d k v))"

text \<open>\<open>xs.index(x)\<close>: the first position of \<open>x\<close>, \<open>ValueError\<close> when there is none.\<close>

fun list_index :: "'a list \<Rightarrow> 'a \<Rightarrow> error + nat" where
  "list_index [] x = Inl ValueError"
| "list_index (y # ys) x =
     (if y = x then Inr 0
      else (case list_index ys x of Inl err \<Rightarrow> Inl err | Inr i \<Rightarrow> Inr (Suc i)))"

subsection \<open>Constants\<close>

definition FACTORS :: "string list" where
  "FACTORS =
     [''Mental Demand'', ''Physical Demand'', ''Temporal Demand'',
      ''Performance'', ''Effort'', ''Frustration'']"

subsection \<open>Python's \<open>float\<close>\<close>

text \<open>
  Python's \<open>round\<close> on a float: the nearest integer, a tie going to the even neighbour.
\<close>

definition py_round :: "rat \<Rightarrow> int" where
  "py_round q =
     (let n = \<lfloor>q\<rfloor>; d = q - of_int n
      in if d < 1 / 2 then n
         else if 1 / 2 < d then n + 1
         else if even n then n else n + 1)"

text \<open>
  A float is a finite double, an infinity or a NaN. The two zeros are not told apart:
  nothing below divides by a zero without raising, and nothing else depends on the sign.
\<close>

datatype pyfloat = Finite rat | PInf | NInf | NaN

text \<open>
  The binary exponent of a rational \<open>x \<noteq> 0\<close>, that is the \<open>e\<close> with \<open>2^e \<le> |x| < 2^(e+1)\<close>,
  from the bit lengths of its numerator and denominator.
\<close>

definition fl_exponent :: "rat \<Rightarrow> int" where
  "fl_exponent x =
     (let (p, q) = quotient_of \<bar>x\<bar>; d = bitlen p - bitlen q
      in if 2 powi d \<le> \<bar>x\<bar> then d else d - 1)"

text \<open>
  Rounding to the nearest double, ties to even: doubles with exponent \<open>e\<close> are the multiples
  of \<open>2^(e - 52)\<close>, the exponent is at least \<open>-1022\<close> (below that the doubles are subnormal
  and keep the spacing \<open>2^(-1074)\<close>), and a result that reaches \<open>2^1024\<close> is an infinity.
\<close>

definition round_double :: "rat \<Rightarrow> pyfloat" where
  "round_double x =
     (if x = 0 then Finite 0
      else let e = max (fl_exponent x) (- 1022);
               ulp = 2 powi (e - 52);
               k = py_round (x / ulp)
           in if 1023 < e \<or> (e = 1023 \<and> \<bar>k\<bar> = 2 ^ 53)
              then (if 0 < x then PInf else NInf)
              else Finite (of_int k * ulp))"

text \<open>
  The conversion of an \<open>int\<close> operand, \<open>float(n)\<close>: correctly rounded, and an error when the
  integer is beyond the doubles.
\<close>

definition float_of_int :: "int \<Rightarrow> error + pyfloat" where
  "float_of_int n =
     (case round_double (of_int n) of Finite y \<Rightarrow> Inr (Finite y) | _ \<Rightarrow> Inl OverflowError)"

fun fpositive :: "pyfloat \<Rightarrow> bool" where
  "fpositive (Finite a) = (0 < a)"
| "fpositive PInf = True"
| "fpositive NInf = False"
| "fpositive NaN = False"

text \<open>
  Addition and multiplication of floats never raise: they overflow to an infinity, and an
  undefined result is a NaN.
\<close>

fun fadd :: "pyfloat \<Rightarrow> pyfloat \<Rightarrow> pyfloat" where
  "fadd (Finite a) (Finite b) = round_double (a + b)"
| "fadd NaN b = NaN"
| "fadd a NaN = NaN"
| "fadd PInf NInf = NaN"
| "fadd NInf PInf = NaN"
| "fadd PInf b = PInf"
| "fadd NInf b = NInf"
| "fadd a PInf = PInf"
| "fadd a NInf = NInf"

fun fmul :: "pyfloat \<Rightarrow> pyfloat \<Rightarrow> pyfloat" where
  "fmul (Finite a) (Finite b) = round_double (a * b)"
| "fmul NaN b = NaN"
| "fmul a NaN = NaN"
| "fmul a b =
     (if a = Finite 0 \<or> b = Finite 0 then NaN
      else if fpositive a = fpositive b then PInf else NInf)"

text \<open>Division of floats raises on a zero divisor, whatever the dividend.\<close>

fun fdiv :: "pyfloat \<Rightarrow> pyfloat \<Rightarrow> error + pyfloat" where
  "fdiv (Finite a) (Finite b) =
     (if b = 0 then Inl ZeroDivisionError else Inr (round_double (a / b)))"
| "fdiv NaN (Finite b) = (if b = 0 then Inl ZeroDivisionError else Inr NaN)"
| "fdiv PInf (Finite b) =
     (if b = 0 then Inl ZeroDivisionError else Inr (if 0 < b then PInf else NInf))"
| "fdiv NInf (Finite b) =
     (if b = 0 then Inl ZeroDivisionError else Inr (if 0 < b then NInf else PInf))"
| "fdiv a NaN = Inr NaN"
| "fdiv (Finite a) b = Inr (Finite 0)"
| "fdiv a b = Inr NaN"

text \<open>\<open>round(q)\<close> of a float: an infinity and a NaN have no integer.\<close>

fun round_float :: "pyfloat \<Rightarrow> error + int" where
  "round_float (Finite q) = Inr (py_round q)"
| "round_float NaN = Inl ValueError"
| "round_float a = Inl OverflowError"

text \<open>The comparison \<open>y > n\<close> of a float with an \<open>int\<close> is exact, and false of a NaN.\<close>

fun float_gt_int :: "pyfloat \<Rightarrow> int \<Rightarrow> bool" where
  "float_gt_int (Finite a) n = (of_int n < a)"
| "float_gt_int PInf n = True"
| "float_gt_int a n = False"

text \<open>
  A value that is an \<open>int\<close> or a float, and \<open>a / n\<close> for such a value and an \<open>int\<close>: the
  quotient of two integers is rounded once, a float is divided by the converted integer.
\<close>

datatype number = PyInt int | PyFloat pyfloat

definition true_div :: "number \<Rightarrow> int \<Rightarrow> error + pyfloat" where
  "true_div a n =
     (case a of
        PyInt m \<Rightarrow>
          if n = 0 then Inl ZeroDivisionError
          else (case round_double (of_int m / of_int n) of
                  Finite y \<Rightarrow> Inr (Finite y)
                | _ \<Rightarrow> Inl OverflowError)
      | PyFloat y \<Rightarrow>
          (case float_of_int n of Inl err \<Rightarrow> Inl err | Inr n' \<Rightarrow> fdiv y n'))"

subsection \<open>\<open>TLXSlider\<close>\<close>

record TLXSlider =
  min_val :: int
  max_val :: int
  step :: int
  slider_value :: int

text \<open>\<open>TLXSlider.__init__\<close> with its default arguments: range 0 to 100, step 5, value 50.\<close>

definition TLXSlider_init :: "int \<Rightarrow> int \<Rightarrow> int \<Rightarrow> TLXSlider" where
  "TLXSlider_init mn mx st = \<lparr>min_val = mn, max_val = mx, step = st, slider_value = 50\<rparr>"

definition TLXSlider_default :: TLXSlider where
  "TLXSlider_default = TLXSlider_init 0 100 5"

definition get_value :: "TLXSlider \<Rightarrow> int" where
  "get_value s = slider_value s"

text \<open>
  The argument of \<open>round\<close> in line 67 of \<open>update_value\<close>, as a function of the float
  \<open>relative_x / width\<close> (the fraction of the track):
  \<open>(min_val + fraction * (max_val - min_val)) / step\<close>. The difference of the two integers is
  exact; the product, the sum and the quotient each convert their integer operand and round.
\<close>

definition step_quotient :: "TLXSlider \<Rightarrow> pyfloat \<Rightarrow> error + pyfloat" where
  "step_quotient s fraction =
     (case float_of_int (max_val s - min_val s) of
        Inl err \<Rightarrow> Inl err
      | Inr d \<Rightarrow>
          (case float_of_int (min_val s) of
             Inl err \<Rightarrow> Inl err
           | Inr m \<Rightarrow>
               (case float_of_int (step s) of
                  Inl err \<Rightarrow> Inl err
                | Inr st \<Rightarrow> fdiv (fadd m (fmul fraction d)) st)))"

text \<open>The rest of line 67: the quotient is rounded and multiplied by \<open>step\<close>, in integers.\<close>

definition set_from_fraction :: "TLXSlider \<Rightarrow> pyfloat \<Rightarrow> error + TLXSlider" where
  "set_from_fraction s fraction =
     (case step_quotient s fraction of
        Inl err \<Rightarrow> Inl err
      | Inr q \<Rightarrow>
          (case round_float q of
             Inl err \<Rightarrow> Inl err
           | Inr k \<Rightarrow> Inr (s\<lparr>slider_value := k * step s\<rparr>)))"

text \<open>
  Line 66, \<open>min(max(0, x - 10), width)\<close>, for the pointer's abscissa \<open>x\<close>, a finite double:
  \<open>max\<close> keeps the integer 0 unless \<open>x - 10\<close> is greater, and \<open>min\<close> takes the integer
  \<open>width\<close> when it is smaller than that.
\<close>

definition relative_x :: "int \<Rightarrow> rat \<Rightarrow> number" where
  "relative_x width x =
     (let y = round_double (x - 10)
      in if float_gt_int y 0
         then (if float_gt_int y width then PyInt width else PyFloat y)
         else (if width < 0 then PyInt width else PyInt 0))"

text \<open>
  \<open>update_value(x)\<close>, with the widget's width \<open>widget_width\<close> (Qt's \<open>self.width()\<close>).
  \<open>relative_x / width\<close> is evaluated first and raises when the widget is exactly 20 wide.
\<close>

definition update_value :: "TLXSlider \<Rightarrow> int \<Rightarrow> rat \<Rightarrow> error + TLXSlider" where
  "update_value s widget_width x =
     (let width = widget_width - 20
      in case true_div (relative_x width x) width of
           Inl err \<Rightarrow> Inl err
         | Inr fraction \<Rightarrow> set_from_fraction s fraction)"

text \<open>
  The exact target of a fraction \<open>f\<close> of the track, \<open>min_val + f * (max_val - min_val)\<close>, to
  which the stored value is compared, and half the spacing of the subnormal doubles, the
  least rounding error that is not relative.
\<close>

definition target :: "TLXSlider \<Rightarrow> rat \<Rightarrow> rat" where
  "target s f = of_int (min_val s) + f * of_int (max_val s - min_val s)"

definition tiny :: rat where
  "tiny = 2 powi (- 1075)"

subsection \<open>The pairwise comparisons\<close>

text \<open>
  A \<open>QButtonGroup\<close> of the weighting page holds two radio buttons, labelled with the two
  factors of its row. Qt's button groups are exclusive: at most one of the buttons is
  checked, which the model records as the checked button, if any.
\<close>

datatype radio = Rb1 | Rb2

record QButtonGroup =
  rb1 :: string
  rb2 :: string
  checked :: "radio option"

text \<open>\<open>checkedButton()\<close> followed by \<open>text()\<close>; \<open>None\<close> when no button is checked.\<close>

definition checkedButton :: "QButtonGroup \<Rightarrow> string option" where
  "checkedButton g =
     (case checked g of None \<Rightarrow> None | Some Rb1 \<Rightarrow> Some (rb1 g) | Some Rb2 \<Rightarrow> Some (rb2 g))"

text \<open>
  The two loops of \<open>create_weighting_page\<close>: \<open>f1\<close> runs over \<open>FACTORS\<close>, \<open>f2\<close> over the
  factors after \<open>f1\<close>; each pair gets a fresh group with nothing checked.
\<close>

fun weighting_rows :: "string list \<Rightarrow> QButtonGroup list" where
  "weighting_rows [] = []"
| "weighting_rows (f1 # rest) =
     map (\<lambda>f2. \<lparr>rb1 = f1, rb2 = f2, checked = None\<rparr>) rest @ weighting_rows rest"

definition create_weighting_page :: "QButtonGroup list" where
  "create_weighting_page = weighting_rows FACTORS"

subsection \<open>\<open>TLXApp\<close>\<close>

text \<open>
  \<open>pages\<close> are the sliders of the rating pages, in page order. \<open>button_groups\<close> is \<open>None\<close>
  when the attribute was never assigned (weighting disabled).
\<close>

record TLXApp =
  use_weighting :: bool
  ratings :: "(string, int) dict"
  weights :: "(string, int) dict"
  pages :: "TLXSlider list"
  button_groups :: "QButtonGroup list option"

definition create_rating_page :: "string \<Rightarrow> TLXSlider" where
  "create_rating_page factor = TLXSlider_default"

definition TLXApp_init :: "bool \<Rightarrow> TLXApp" where
  "TLXApp_init uw =
     \<lparr>use_weighting = uw,
      ratings = [],
      weights = map (\<lambda>factor. (factor, 0)) FACTORS,
      pages = map create_rating_page FACTORS,
      button_groups = (if uw then Some create_weighting_page else None)\<rparr>"

text \<open>
  \<open>mousePressEvent\<close> and \<open>mouseMoveEvent\<close> of the slider on rating page \<open>i\<close>: both call
  \<open>update_value\<close> with the pointer's abscissa. An exception raised there leaves the slider
  as it was, the assignment not having happened.
\<close>

definition mouse_event :: "nat \<Rightarrow> int \<Rightarrow> rat \<Rightarrow> TLXApp \<Rightarrow> TLXApp" where
  "mouse_event i widget_width x app =
     (if i < length (pages app)
      then (case update_value (pages app ! i) widget_width x of
              Inl err \<Rightarrow> app
            | Inr s \<Rightarrow> app\<lparr>pages := (pages app)[i := s]\<rparr>)
      else app)"

fun mouse_events :: "(nat \<times> int \<times> rat) list \<Rightarrow> TLXApp \<Rightarrow> TLXApp" where
  "mouse_events [] app = app"
| "mouse_events ((i, widget_width, x) # es) app = mouse_events es (mouse_event i widget_width x app)"

text \<open>
  \<open>update_weights\<close>: for every factor, one is summed for each group whose checked button
  carries the factor's name. The second component of the result says whether the warning
  dialog was shown.
\<close>

definition tally :: "QButtonGroup list \<Rightarrow> string \<Rightarrow> int" where
  "tally gs factor = sum_list (map (\<lambda>btn_grp. 1) (filter (\<lambda>btn_grp. checkedButton btn_grp = Some factor) gs))"

definition update_weights :: "TLXApp \<Rightarrow> error + (TLXApp \<times> bool)" where
  "update_weights app =
     (case button_groups app of
        None \<Rightarrow> Inl AttributeError
      | Some gs \<Rightarrow>
          (case dict_comp (\<lambda>factor. Inr (tally gs factor)) FACTORS [] of
             Inl err \<Rightarrow> Inl err
           | Inr w \<Rightarrow> Inr (app\<lparr>weights := w\<rparr>, 15 < sum_list (dict_values w))))"

text \<open>
  A click on radio button \<open>b\<close> of row \<open>i\<close>: Qt checks the button, unchecks the other button
  of the same group, and emits \<open>buttonClicked\<close>, to which \<open>update_weights\<close> is connected.
  Without such a row there is nothing to click and nothing happens.
\<close>

definition click :: "nat \<Rightarrow> radio \<Rightarrow> TLXApp \<Rightarrow> error + (TLXApp \<times> bool)" where
  "click i b app =
     (case button_groups app of
        None \<Rightarrow> Inr (app, False)
      | Some gs \<Rightarrow>
          if i < length gs
          then update_weights (app\<lparr>button_groups := Some (gs[i := (gs ! i)\<lparr>checked := Some b\<rparr>])\<rparr>)
          else Inr (app, False))"

subsection \<open>The result record and the log files\<close>

record result_data =
  res_timestamp :: string
  res_ratings :: "(string, int) dict"
  res_weights :: "(string, int) dict"
  res_adjusted_ratings :: "(string, int) dict"
  res_weighted_rating :: rat

text \<open>
  The JSON file either holds an array of records, or a JSON value that is not an array, or
  text that is not JSON (an empty file, say). Serialising and parsing are not modelled: the
  file holds the array itself. An array of values other than records, which the program
  would extend in the same way, is not represented.
\<close>

datatype json_content = JArray "result_data list" | JNotArray | JMalformed

datatype cell = CStr string | CInt int | CNum rat

record files =
  json_file :: "json_content option"
  csv_file :: "cell list list option"

text \<open>
  Lines 161 to 165: \<open>json.load\<close> of an existing file, the empty list otherwise. Text that
  does not parse raises; a value that is not a list has no \<open>append\<close>.
\<close>

definition json_load :: "files \<Rightarrow> error + result_data list" where
  "json_load fs =
     (case json_file fs of
        None \<Rightarrow> Inr []
      | Some (JArray records) \<Rightarrow> Inr records
      | Some JNotArray \<Rightarrow> Inl AttributeError
      | Some JMalformed \<Rightarrow> Inl JSONDecodeError)"

text \<open>Lines 171 to 177: the row as a dictionary.\<close>

definition rating_cell :: "(string, int) dict \<Rightarrow> string \<Rightarrow> cell" where
  "rating_cell d factor = (case map_of d factor of None \<Rightarrow> CStr '''' | Some v \<Rightarrow> CInt v)"

definition csv_data :: "bool \<Rightarrow> result_data \<Rightarrow> (string, cell) dict" where
  "csv_data uw rd =
     (let d0 = [(''timestamp'', CStr (res_timestamp rd))];
          d1 = foldl (\<lambda>d factor. dict_set d factor (rating_cell (res_ratings rd) factor)) d0 FACTORS;
          d2 = (if uw
                then foldl (\<lambda>d factor. dict_set d (''adjusted_'' @ factor)
                                      (rating_cell (res_adjusted_ratings rd) factor)) d1 FACTORS
                else d1)
      in dict_set d2 ''weighted_rating'' (CNum (res_weighted_rating rd)))"

definition fieldnames :: "bool \<Rightarrow> string list" where
  "fieldnames uw =
     [''timestamp''] @ FACTORS
       @ (if uw then map (\<lambda>factor. ''adjusted_'' @ factor) FACTORS else [])
       @ [''weighted_rating'']"

text \<open>
  \<open>csv.DictWriter\<close>: the header is the field names; a row has one cell per field name, the
  empty string for a missing key, and a key outside the field names raises \<open>ValueError\<close>.
\<close>

definition writeheader :: "string list \<Rightarrow> cell list" where
  "writeheader fns = map CStr fns"

definition writerow :: "string list \<Rightarrow> (string, cell) dict \<Rightarrow> error + cell list" where
  "writerow fns d =
     (if list_ex (\<lambda>k. k \<notin> set fns) (dict_keys d) then Inl ValueError
      else Inr (map (\<lambda>k. dict_get d k (CStr '''')) fns))"

text \<open>
  \<open>save_to_files\<close>: the JSON array is read, extended and written back; then the CSV file is
  opened for appending, a header is written when the file did not exist, and the row
  follows.
\<close>

definition save_to_files :: "bool \<Rightarrow> result_data \<Rightarrow> files \<Rightarrow> error + files" where
  "save_to_files uw rd fs =
     (case json_load fs of
        Inl err \<Rightarrow> Inl err
      | Inr data \<Rightarrow>
          (let fs1 = fs\<lparr>json_file := Some (JArray (data @ [rd]))\<rparr>;
               file_exists = (csv_file fs1 \<noteq> None);
               old_rows = (case csv_file fs1 of None \<Rightarrow> [] | Some rows \<Rightarrow> rows);
               header = (if \<not> file_exists then [writeheader (fieldnames uw)] else [])
           in case writerow (fieldnames uw) (csv_data uw rd) of
                Inl err \<Rightarrow> Inl err
              | Inr row \<Rightarrow> Inr (fs1\<lparr>csv_file := Some (old_rows @ header @ [row])\<rparr>)))"

text \<open>Appending several records, one \<open>save_to_files\<close> after the other.\<close>

fun save_all :: "bool \<Rightarrow> result_data list \<Rightarrow> files \<Rightarrow> error + files" where
  "save_all uw [] fs = Inr fs"
| "save_all uw (rd # rds) fs =
     (case save_to_files uw rd fs of Inl err \<Rightarrow> Inl err | Inr fs' \<Rightarrow> save_all uw rds fs')"

subsection \<open>\<open>save_results\<close>\<close>

text \<open>
  \<open>self.page(i).slider\<close>: Qt returns no page for an unknown id, and the attribute access
  raises.
\<close>

definition page_slider :: "TLXApp \<Rightarrow> nat \<Rightarrow> error + TLXSlider" where
  "page_slider app i = (if i < length (pages app) then Inr (pages app ! i) else Inl AttributeError)"

definition read_rating :: "TLXApp \<Rightarrow> string \<Rightarrow> error + int" where
  "read_rating app factor =
     (case list_index FACTORS factor of
        Inl err \<Rightarrow> Inl err
      | Inr i \<Rightarrow> (case page_slider app i of Inl err \<Rightarrow> Inl err | Inr s \<Rightarrow> Inr (get_value s)))"

definition adjust :: "TLXApp \<Rightarrow> string \<Rightarrow> error + int" where
  "adjust app factor =
     (case dict_item (ratings app) factor of
        Inl err \<Rightarrow> Inl err
      | Inr r \<Rightarrow> (case dict_item (weights app) factor of Inl err \<Rightarrow> Inl err | Inr w \<Rightarrow> Inr (r * w)))"

text \<open>
  Lines 143 to 153: the ratings are read from the sliders and stored, the adjusted ratings
  and the score are computed, and the record is built. \<open>now\<close> is
  \<open>datetime.now().isoformat()\<close>.
\<close>

definition build_result :: "string \<Rightarrow> TLXApp \<Rightarrow> error + (TLXApp \<times> result_data)" where
  "build_result now app0 =
     (case dict_comp (read_rating app0) FACTORS [] of
        Inl err \<Rightarrow> Inl err
      | Inr rs \<Rightarrow>
          (let app = app0\<lparr>ratings := rs\<rparr>
           in case (if use_weighting app then dict_comp (adjust app) FACTORS [] else Inr []) of
                Inl err \<Rightarrow> Inl err
              | Inr adjusted_ratings \<Rightarrow>
                  (let weighted_rating =
                         (if use_weighting app
                          then of_int (sum_list (dict_values adjusted_ratings)) / 15
                          else of_int (sum_list (dict_values (ratings app))) / of_nat (length FACTORS))
                   in Inr (app,
                        \<lparr>res_timestamp = now,
                         res_ratings = ratings app,
                         res_weights = (if use_weighting app then weights app else []),
                         res_adjusted_ratings = (if use_weighting app then adjusted_ratings else []),
                         res_weighted_rating = weighted_rating\<rparr>))))"

definition save_results :: "string \<Rightarrow> TLXApp \<Rightarrow> files \<Rightarrow> error + (TLXApp \<times> files)" where
  "save_results now app fs =
     (case build_result now app of
        Inl err \<Rightarrow> Inl err
      | Inr (app', rd) \<Rightarrow>
          (case save_to_files (use_weighting app') rd fs of
             Inl err \<Rightarrow> Inl err
           | Inr fs' \<Rightarrow> Inr (app', fs')))"

section \<open>Properties\<close>

subsection \<open>Rounding to an integer\<close>

lemma py_round_half: "\<bar>of_int (py_round q) - q\<bar> \<le> 1 / 2"
proof -
  have "of_int \<lfloor>q\<rfloor> \<le> q" and "q < of_int \<lfloor>q\<rfloor> + 1" by linarith+
  then show ?thesis
    by (auto simp: py_round_def Let_def)
qed

lemma py_round_ge: "of_int a \<le> q \<Longrightarrow> a \<le> py_round q"
proof -
  assume "of_int a \<le> q"
  then have "a \<le> \<lfloor>q\<rfloor>" by (simp add: le_floor_iff)
  moreover have "\<lfloor>q\<rfloor> \<le> py_round q" by (simp add: py_round_def Let_def)
  ultimately show ?thesis by linarith
qed

lemma py_round_le: "q \<le> of_int b \<Longrightarrow> py_round q \<le> b"
proof (cases "q = of_int b")
  case True
  then show ?thesis by (simp add: py_round_def Let_def)
next
  case False
  assume "q \<le> of_int b"
  with False have "q < of_int b" by simp
  then have "\<lfloor>q\<rfloor> < b" by (simp add: floor_less_iff)
  moreover have "py_round q \<le> \<lfloor>q\<rfloor> + 1" by (simp add: py_round_def Let_def)
  ultimately show ?thesis by linarith
qed

lemma py_round_of_int: "py_round (of_int n) = n"
  using py_round_ge [of n "of_int n"] py_round_le [of "of_int n" n] by simp

lemma py_round_tie: "\<bar>of_int (py_round q) - q\<bar> = 1 / 2 \<Longrightarrow> even (py_round q)"
proof -
  assume t: "\<bar>of_int (py_round q) - q\<bar> = 1 / 2"
  have f: "of_int \<lfloor>q\<rfloor> \<le> q" "q < of_int \<lfloor>q\<rfloor> + 1" by linarith+
  show ?thesis
  proof (cases "q - of_int \<lfloor>q\<rfloor> = 1 / 2")
    case True
    then show ?thesis by (simp add: py_round_def Let_def)
  next
    case False
    then show ?thesis using t f by (auto simp: py_round_def Let_def split: if_splits)
  qed
qed

lemma py_round_neg: "py_round (- q) = - py_round q"
proof (cases "q = of_int \<lfloor>q\<rfloor>")
  case True
  then obtain n where "q = of_int n" by blast
  then show ?thesis using py_round_of_int [of n] py_round_of_int [of "- n"] by simp
next
  case False
  have f: "of_int \<lfloor>q\<rfloor> \<le> q" "q < of_int \<lfloor>q\<rfloor> + 1" by linarith+
  have lt: "of_int \<lfloor>q\<rfloor> < q" by (metis False of_int_floor_le less_le)
  have "\<lfloor>- q\<rfloor> = - \<lfloor>q\<rfloor> - 1"
    using lt f(2) by (intro floor_unique) simp_all
  then show ?thesis
    using lt f(2) by (auto simp: py_round_def Let_def)
qed

lemma py_round_nearest: "\<bar>of_int (py_round q) - q\<bar> \<le> \<bar>of_int k - q\<bar>"
proof (cases "k = py_round q")
  case True
  then show ?thesis by simp
next
  case False
  then have "1 \<le> \<bar>k - py_round q\<bar>" by linarith
  then have "(1::rat) \<le> \<bar>of_int k - of_int (py_round q)\<bar>"
    by (metis of_int_1 of_int_abs of_int_diff of_int_le_iff)
  then show ?thesis using py_round_half [of q] by linarith
qed

subsection \<open>Rounding to a double\<close>

lemma fl_exponent_bounds:
  assumes "x \<noteq> 0"
  shows "2 powi (fl_exponent x) \<le> \<bar>x\<bar>" and "\<bar>x\<bar> < 2 powi (fl_exponent x + 1)"
proof -
  obtain p q where pq: "quotient_of \<bar>x\<bar> = (p, q)" by (cases "quotient_of \<bar>x\<bar>") auto
  have q: "0 < q" using pq by (rule quotient_of_denom_pos)
  have x: "\<bar>x\<bar> = of_int p / of_int q" using pq by (rule quotient_of_div)
  have "0 < \<bar>x\<bar>" using assms by simp
  then have p: "0 < p" using x q by (simp add: zero_less_divide_iff)
  let ?d = "bitlen p - bitlen q"
  have bp: "2 ^ nat (bitlen p - 1) \<le> p" "p < 2 ^ nat (bitlen p)"
    using bitlen_bounds [OF p] by simp_all
  have bq: "2 ^ nat (bitlen q - 1) \<le> q" "q < 2 ^ nat (bitlen q)"
    using bitlen_bounds [OF q] by simp_all
  have lp: "1 \<le> bitlen p" using p by (simp add: bitlen_alt_def)
  have lq: "1 \<le> bitlen q" using q by (simp add: bitlen_alt_def)
  have pw: "(2::rat) powi n = of_int (2 ^ nat n)" if "0 \<le> n" for n
    using that by (simp add: power_int_nonneg_exp)
  have bp': "(2::rat) powi (bitlen p - 1) \<le> of_int p" "(of_int p :: rat) < 2 powi (bitlen p)"
    using bp lp by (simp_all only: pw of_int_le_iff of_int_less_iff)
  have bq': "(2::rat) powi (bitlen q - 1) \<le> of_int q" "(of_int q :: rat) < 2 powi (bitlen q)"
    using bq lq by (simp_all only: pw of_int_le_iff of_int_less_iff)
  have "of_int p / of_int q < (2::rat) powi (bitlen p) / 2 powi (bitlen q - 1)"
    using bp'(2) bq'(1) p by (intro frac_less) simp_all
  also have "(2::rat) powi (bitlen p) / 2 powi (bitlen q - 1) = 2 powi (?d + 1)"
    by (simp add: power_int_diff [symmetric] algebra_simps)
  finally have up: "\<bar>x\<bar> < 2 powi (?d + 1)" using x by simp
  have "(2::rat) powi (bitlen p - 1) / 2 powi (bitlen q) < of_int p / of_int q"
    using bp'(1) bq'(2) q by (intro frac_less2) simp_all
  moreover have "(2::rat) powi (bitlen p - 1) / 2 powi (bitlen q) = 2 powi (?d - 1)"
    by (simp add: power_int_diff [symmetric] algebra_simps)
  ultimately have lo: "2 powi (?d - 1) < \<bar>x\<bar>" using x by simp
  show "2 powi (fl_exponent x) \<le> \<bar>x\<bar>"
    using lo pq by (auto simp: fl_exponent_def Let_def)
  show "\<bar>x\<bar> < 2 powi (fl_exponent x + 1)"
    using up pq by (auto simp: fl_exponent_def Let_def)
qed

text \<open>
  A rounded value does not cross an integer of magnitude at most \<open>2^53\<close>: such an integer
  is a double, and a multiple of the spacing wherever the argument can be on its far side.
\<close>

lemma up_small:
  assumes e: "e \<le> 52" and u: "u = 2 powi (e - 52)" and x: "x \<le> of_int b"
  shows "of_int (py_round (x / u)) * u \<le> (of_int b :: rat)"
proof -
  let ?N = "2 ^ nat (52 - e) :: int"
  have "e - 52 = - (52 - e)" by simp
  then have "u = 2 powi (- (52 - e))" using u by (simp only:)
  also have "\<dots> = 1 / 2 ^ nat (52 - e)"
    using e by (simp only: power_int_minus_divide power_int_nonneg_exp diff_ge_0_iff_ge)
  finally have un: "u = 1 / of_int ?N" by simp
  have N: "(0::rat) < of_int ?N" by simp
  have "x / u = x * of_int ?N" using un by simp
  also have "\<dots> \<le> of_int b * of_int ?N" using x N by (simp add: mult_right_mono)
  finally have "x / u \<le> of_int (b * ?N)" by simp
  then have "py_round (x / u) \<le> b * ?N" by (rule py_round_le)
  then have "(of_int (py_round (x / u)) :: rat) \<le> of_int (b * ?N)" by (simp only: of_int_le_iff)
  then have "of_int (py_round (x / u)) * u \<le> of_int (b * ?N) * u"
    using un N by (intro mult_right_mono) simp_all
  also have "of_int (b * ?N) * u = of_int b" using un N by simp
  finally show ?thesis .
qed

lemma up_large:
  assumes e: "53 \<le> e" and u: "u = 2 powi (e - 52)" and p: "2 powi e \<le> \<bar>x\<bar>"
    and x: "x \<le> of_int b" and b: "\<bar>b\<bar> \<le> 2 ^ 53"
  shows "of_int (py_round (x / u)) * u \<le> (of_int b :: rat)"
proof -
  have u0: "0 < u" using u by simp
  have pu: "2 powi e = of_int (2 ^ 52) * u"
    using u by (simp add: power_int_diff)
  have big: "(2::rat) ^ 53 \<le> 2 powi e"
    using e power_int_increasing [of 53 e "2::rat"] by simp
  have bq: "(of_int b :: rat) \<le> 2 ^ 53" "- (2 ^ 53) \<le> (of_int b :: rat)"
  proof -
    have "b \<le> 2 ^ 53" "- (2 ^ 53) \<le> b" using b by linarith+
    then have "(of_int b :: rat) \<le> of_int (2 ^ 53)" "of_int (- (2 ^ 53)) \<le> (of_int b :: rat)"
      by (simp_all only: of_int_le_iff)
    then show "(of_int b :: rat) \<le> 2 ^ 53" "- (2 ^ 53) \<le> (of_int b :: rat)" by simp_all
  qed
  show ?thesis
  proof (cases "0 < x")
    case True
    then have "2 powi e \<le> x" using p by simp
    then have eq: "x = 2 powi e" "of_int b = (2 powi e :: rat)" using x bq big by linarith+
    have "x / u = of_int (2 ^ 52)" using eq(1) pu u0 by simp
    then have "py_round (x / u) = 2 ^ 52" by (simp only: py_round_of_int)
    then have "of_int (py_round (x / u)) * u = 2 powi e" using pu by simp
    then show ?thesis using eq(2) by simp
  next
    case False
    then have "x \<le> - (2 powi e)" using p by simp
    then have "x / u \<le> - (2 powi e) / u"
      using divide_right_mono [of x "- (2 powi e)" u] u0 by simp
    also have "- (2 powi e) / u = of_int (- (2 ^ 52))" using pu u0 by simp
    finally have "py_round (x / u) \<le> - (2 ^ 52)" by (rule py_round_le)
    then have "(of_int (py_round (x / u)) :: rat) \<le> of_int (- (2 ^ 52))" by (simp only: of_int_le_iff)
    then have "of_int (py_round (x / u)) * u \<le> of_int (- (2 ^ 52)) * u"
      using u0 by (intro mult_right_mono) simp_all
    also have "\<dots> = - (2 powi e)" using pu by simp
    finally show ?thesis using big bq by linarith
  qed
qed

lemma lo_small:
  assumes "e \<le> 52" and "u = 2 powi (e - 52)" and "of_int a \<le> x"
  shows "(of_int a :: rat) \<le> of_int (py_round (x / u)) * u"
proof -
  have "- x \<le> of_int (- a)" using assms(3) by simp
  from up_small [OF assms(1,2) this]
  show ?thesis by (simp add: py_round_neg)
qed

lemma lo_large:
  assumes "53 \<le> e" and "u = 2 powi (e - 52)" and "2 powi e \<le> \<bar>x\<bar>"
    and "of_int a \<le> x" and "\<bar>a\<bar> \<le> 2 ^ 53"
  shows "(of_int a :: rat) \<le> of_int (py_round (x / u)) * u"
proof -
  have 1: "- x \<le> of_int (- a)" using assms(4) by simp
  have 2: "2 powi e \<le> \<bar>- x\<bar>" using assms(3) by simp
  have 3: "\<bar>- a\<bar> \<le> 2 ^ 53" using assms(5) by simp
  from up_large [OF assms(1,2) 2 1 3]
  show ?thesis by (simp add: py_round_neg)
qed

lemma half_ulp:
  assumes "x \<noteq> 0" and "u = 2 powi (max (fl_exponent x) (- 1022) - 52)"
  shows "u / 2 \<le> \<bar>x\<bar> / 2 ^ 53 + tiny"
proof (cases "- 1022 \<le> fl_exponent x")
  case True
  then have "u = 2 powi (fl_exponent x) / 2 ^ 52"
    using assms(2) by (simp add: max_def power_int_diff)
  also have "\<dots> \<le> \<bar>x\<bar> / 2 ^ 52"
    using fl_exponent_bounds(1) [OF assms(1)] by (simp add: divide_right_mono)
  finally have "u / 2 \<le> \<bar>x\<bar> / 2 ^ 52 / 2" by simp
  also have "\<bar>x\<bar> / 2 ^ 52 / 2 = \<bar>x\<bar> / 2 ^ 53" by simp
  finally have "u / 2 \<le> \<bar>x\<bar> / 2 ^ 53" .
  moreover have "0 < tiny" by (simp add: tiny_def)
  ultimately show ?thesis by linarith
next
  case False
  then have "u = 2 powi (- 1075 + 1)" using assms(2) by (simp add: max_def)
  also have "\<dots> = 2 powi (- 1075) * 2" by (subst power_int_add) simp_all
  finally have "u / 2 = tiny" by (simp add: tiny_def)
  then show ?thesis by simp
qed

lemma round_double_between:
  assumes a: "of_int a \<le> x" and b: "x \<le> of_int b"
    and ba: "\<bar>a\<bar> \<le> 2 ^ 53" and bb: "\<bar>b\<bar> \<le> 2 ^ 53"
  shows "\<exists>y. round_double x = Finite y \<and> of_int a \<le> y \<and> y \<le> of_int b
           \<and> \<bar>y - x\<bar> \<le> \<bar>x\<bar> / 2 ^ 53 + tiny"
proof (cases "x = 0")
  case True
  have "0 < tiny" by (simp add: tiny_def)
  then show ?thesis using True a b by (simp add: round_double_def)
next
  case False
  let ?e = "max (fl_exponent x) (- 1022)"
  let ?u = "2 powi (?e - 52) :: rat"
  let ?k = "py_round (x / ?u)"
  have u0: "0 < ?u" by simp
  have xb: "\<bar>x\<bar> \<le> 2 ^ 53"
  proof -
    have "b \<le> 2 ^ 53" "- (2 ^ 53) \<le> a" using ba bb by linarith+
    then have "(of_int b :: rat) \<le> of_int (2 ^ 53)" "of_int (- (2 ^ 53)) \<le> (of_int a :: rat)"
      by (simp_all only: of_int_le_iff)
    then show ?thesis using a b by simp
  qed
  have e53: "?e \<le> 53"
  proof -
    have "(2::rat) powi (fl_exponent x) \<le> 2 powi 53"
      using fl_exponent_bounds(1) [OF False] xb by simp
    then have "fl_exponent x \<le> 53"
      using power_int_le_imp_le_exp [of "2::rat" "fl_exponent x" 53] by simp
    then show ?thesis by simp
  qed
  have "?e < 1023" using e53 by linarith
  then have no: "\<not> (1023 < ?e \<or> (?e = 1023 \<and> \<bar>?k\<bar> = 2 ^ 53))" by linarith
  have fin: "round_double x = Finite (of_int ?k * ?u)"
    by (simp only: round_double_def Let_def False no if_False)
  have large: "2 powi ?e \<le> \<bar>x\<bar>" if "53 \<le> ?e"
  proof -
    have "?e = fl_exponent x" using that by (simp add: max_def split: if_splits)
    then show ?thesis using fl_exponent_bounds(1) [OF False] by simp
  qed
  have up: "of_int ?k * ?u \<le> of_int b"
  proof (cases "?e \<le> 52")
    case True
    then show ?thesis using b by (intro up_small [where e = ?e]) simp_all
  next
    case False
    then have "53 \<le> ?e" by linarith
    then show ?thesis using b bb large by (intro up_large [where e = ?e]) simp_all
  qed
  have lo: "of_int a \<le> of_int ?k * ?u"
  proof (cases "?e \<le> 52")
    case True
    then show ?thesis using a by (intro lo_small [where e = ?e]) simp_all
  next
    case False
    then have "53 \<le> ?e" by linarith
    then show ?thesis using a ba large by (intro lo_large [where e = ?e]) simp_all
  qed
  have "\<bar>of_int ?k - x / ?u\<bar> * ?u \<le> 1 / 2 * ?u"
    using py_round_half [of "x / ?u"] u0 by (intro mult_right_mono) simp_all
  moreover have "\<bar>of_int ?k - x / ?u\<bar> * ?u = \<bar>of_int ?k * ?u - x\<bar>"
  proof -
    have "\<bar>of_int ?k - x / ?u\<bar> * ?u = \<bar>(of_int ?k - x / ?u) * ?u\<bar>"
      using u0 by (simp add: abs_mult)
    also have "(of_int ?k - x / ?u) * ?u = of_int ?k * ?u - x"
      using u0 by (simp add: algebra_simps)
    finally show ?thesis .
  qed
  ultimately have "\<bar>of_int ?k * ?u - x\<bar> \<le> ?u / 2" by simp
  then have err: "\<bar>of_int ?k * ?u - x\<bar> \<le> \<bar>x\<bar> / 2 ^ 53 + tiny"
    using half_ulp [OF False, of ?u] by simp
  show ?thesis using fin up lo err by blast
qed

lemma of_int_abs_le: "\<bar>n\<bar> \<le> m \<Longrightarrow> \<bar>of_int n :: rat\<bar> \<le> of_int m"
  by (metis of_int_abs of_int_le_iff)

lemma float_of_int_exact: "\<bar>n\<bar> \<le> 2 ^ 53 \<Longrightarrow> float_of_int n = Inr (Finite (of_int n))"
  using round_double_between [of n "of_int n" n] by (auto simp: float_of_int_def)

lemma round_double_1: "round_double 1 = Finite 1"
  using round_double_between [of 1 1 1] by auto

subsection \<open>The slider\<close>

text \<open>
  The three roundings of line 67 for a slider whose integers are exact as doubles: each
  intermediate result is finite, between the integer bounds of its exact value, and off
  by at most the relative error of a double.
\<close>

lemma quotient_analysis:
  assumes f: "0 \<le> f" "f \<le> 1"
    and st: "step s \<noteq> 0" "\<bar>step s\<bar> \<le> 2 ^ 53"
    and mn: "\<bar>min_val s\<bar> \<le> 2 ^ 53" and mx: "\<bar>max_val s\<bar> \<le> 2 ^ 53"
    and le: "min_val s \<le> max_val s" and d: "max_val s - min_val s \<le> 2 ^ 53"
  shows "\<exists>p t q. step_quotient s (Finite f) = Inr (Finite q)
           \<and> round_double (t / of_int (step s)) = Finite q
           \<and> of_int (min_val s) \<le> t \<and> t \<le> of_int (max_val s)
           \<and> \<bar>q - t / of_int (step s)\<bar> \<le> \<bar>t / of_int (step s)\<bar> / 2 ^ 53 + tiny
           \<and> \<bar>t - (of_int (min_val s) + p)\<bar> \<le> \<bar>of_int (min_val s) + p\<bar> / 2 ^ 53 + tiny
           \<and> 0 \<le> p \<and> p \<le> of_int (max_val s - min_val s)
           \<and> \<bar>p - f * of_int (max_val s - min_val s)\<bar>
                 \<le> \<bar>f * of_int (max_val s - min_val s)\<bar> / 2 ^ 53 + tiny"
proof -
  let ?D = "max_val s - min_val s"
  let ?M = "max \<bar>min_val s\<bar> \<bar>max_val s\<bar>"
  have D0: "0 \<le> ?D" using le by simp
  then have Dabs: "\<bar>?D\<bar> \<le> 2 ^ 53" using d by simp
  have cD: "float_of_int ?D = Inr (Finite (of_int ?D))" by (rule float_of_int_exact [OF Dabs])
  have cm: "float_of_int (min_val s) = Inr (Finite (of_int (min_val s)))"
    by (rule float_of_int_exact [OF mn])
  have cs: "float_of_int (step s) = Inr (Finite (of_int (step s)))"
    by (rule float_of_int_exact [OF st(2)])
  have fD: "of_int 0 \<le> f * of_int ?D" "f * of_int ?D \<le> (of_int ?D :: rat)"
  proof -
    have D0': "(0::rat) \<le> of_int ?D" using D0 by simp
    show "of_int 0 \<le> f * of_int ?D" using f(1) D0' by simp
    have "f * of_int ?D \<le> 1 * (of_int ?D :: rat)" using f(2) D0' by (rule mult_right_mono)
    then show "f * of_int ?D \<le> (of_int ?D :: rat)" by simp
  qed
  obtain p where p: "round_double (f * of_int ?D) = Finite p" "of_int 0 \<le> p" "p \<le> of_int ?D"
    "\<bar>p - f * of_int ?D\<bar> \<le> \<bar>f * of_int ?D\<bar> / 2 ^ 53 + tiny"
    using round_double_between [OF fD _ Dabs] by auto
  have mp: "of_int (min_val s) \<le> of_int (min_val s) + p" "of_int (min_val s) + p \<le> of_int (max_val s)"
    using p(2,3) by simp_all
  obtain t where t: "round_double (of_int (min_val s) + p) = Finite t"
    "of_int (min_val s) \<le> t" "t \<le> of_int (max_val s)"
    "\<bar>t - (of_int (min_val s) + p)\<bar> \<le> \<bar>of_int (min_val s) + p\<bar> / 2 ^ 53 + tiny"
    using round_double_between [OF mp mn mx] by auto
  have M: "\<bar>?M\<bar> \<le> 2 ^ 53" "\<bar>- ?M\<bar> \<le> 2 ^ 53" using mn mx by simp_all
  have tM: "\<bar>t\<bar> \<le> of_int ?M"
  proof -
    have "max_val s \<le> ?M" "- ?M \<le> min_val s" by linarith+
    then have "(of_int (max_val s) :: rat) \<le> of_int ?M" "of_int (- ?M) \<le> (of_int (min_val s) :: rat)"
      by (simp_all only: of_int_le_iff)
    then show ?thesis using t(2,3) unfolding of_int_minus by linarith
  qed
  have s1: "(1::rat) \<le> \<bar>of_int (step s)\<bar>"
  proof -
    have "1 \<le> \<bar>step s\<bar>" using st(1) by linarith
    then have "(of_int 1 :: rat) \<le> of_int \<bar>step s\<bar>" by (simp only: of_int_le_iff)
    then show ?thesis by simp
  qed
  have "\<bar>t / of_int (step s)\<bar> = \<bar>t\<bar> / \<bar>of_int (step s)\<bar>" by simp
  also have "\<dots> \<le> \<bar>t\<bar> / 1" using s1 by (intro divide_left_mono) simp_all
  finally have "\<bar>t / of_int (step s)\<bar> \<le> of_int ?M" using tM by simp
  then have tq: "of_int (- ?M) \<le> t / of_int (step s)" "t / of_int (step s) \<le> of_int ?M"
    unfolding of_int_minus by linarith+
  obtain q where q: "round_double (t / of_int (step s)) = Finite q"
    "\<bar>q - t / of_int (step s)\<bar> \<le> \<bar>t / of_int (step s)\<bar> / 2 ^ 53 + tiny"
    using round_double_between [OF tq M(2,1)] by auto
  have "step_quotient s (Finite f) = Inr (Finite q)"
    using cD cm cs p(1) t(1) q(1) st(1) by (simp add: step_quotient_def)
  then show ?thesis using q t p by auto
qed

lemma tiny_small: "tiny * (2 ^ 53 + 2) \<le> 1 / 2 ^ 51"
proof -
  have t0: "0 < tiny" by (simp add: tiny_def)
  have "(2::rat) ^ 53 + 2 \<le> 2 ^ 54" by simp
  then have "tiny * (2 ^ 53 + 2) \<le> tiny * 2 ^ 54" using t0 by (intro mult_left_mono) simp_all
  also have "tiny * 2 ^ 54 = 2 powi (- 1075) * 2 powi 54" by (simp only: tiny_def power_int_numeral)
  also have "\<dots> = 2 powi (- 1075 + 54)" by (subst power_int_add) simp_all
  also have "\<dots> \<le> 2 powi (- 51)" by (intro power_int_increasing) simp_all
  also have "\<dots> = 1 / 2 ^ 51" by (simp add: power_int_minus_divide)
  finally show ?thesis .
qed

lemma quotient_range:
  assumes q: "round_double (t / of_int (step s)) = Finite q"
    and t: "of_int (min_val s) \<le> t" "t \<le> of_int (max_val s)"
    and st: "step s \<noteq> 0"
    and dv: "step s dvd min_val s" "step s dvd max_val s"
    and mn: "\<bar>min_val s\<bar> \<le> 2 ^ 53" and mx: "\<bar>max_val s\<bar> \<le> 2 ^ 53"
  shows "min_val s \<le> py_round q * step s \<and> py_round q * step s \<le> max_val s"
proof -
  obtain a where a: "min_val s = a * step s" using dv(1) by (auto simp: dvd_def mult.commute)
  obtain b where b: "max_val s = b * step s" using dv(2) by (auto simp: dvd_def mult.commute)
  have s1: "1 \<le> \<bar>step s\<bar>" using st by linarith
  have "\<bar>a\<bar> * 1 \<le> \<bar>a\<bar> * \<bar>step s\<bar>" using s1 by (intro mult_left_mono) simp_all
  then have "\<bar>a\<bar> \<le> \<bar>min_val s\<bar>" using a by (simp add: abs_mult)
  then have ba: "\<bar>a\<bar> \<le> 2 ^ 53" using mn by linarith
  have "\<bar>b\<bar> * 1 \<le> \<bar>b\<bar> * \<bar>step s\<bar>" using s1 by (intro mult_left_mono) simp_all
  then have "\<bar>b\<bar> \<le> \<bar>max_val s\<bar>" using b by (simp add: abs_mult)
  then have bb: "\<bar>b\<bar> \<le> 2 ^ 53" using mx by linarith
  have ta: "of_int (a * step s) \<le> t" and tb: "t \<le> of_int (b * step s)"
    using t a b by simp_all
  show ?thesis
  proof (cases "0 < step s")
    case True
    then have pos: "(0::rat) < of_int (step s)" by simp
    have 1: "of_int a \<le> t / of_int (step s)" using ta pos by (simp add: pos_le_divide_eq)
    have 2: "t / of_int (step s) \<le> of_int b" using tb pos by (simp add: pos_divide_le_eq)
    obtain y where "round_double (t / of_int (step s)) = Finite y" "of_int a \<le> y" "y \<le> of_int b"
      using round_double_between [OF 1 2 ba bb] by blast
    then have "of_int a \<le> q" "q \<le> of_int b" using q by simp_all
    then have "a \<le> py_round q" "py_round q \<le> b" by (simp_all add: py_round_ge py_round_le)
    then show ?thesis using a b True by simp
  next
    case False
    with st have neg: "step s < 0" by simp
    then have neg': "(of_int (step s) :: rat) < 0" by simp
    have 1: "t / of_int (step s) \<le> of_int a" using ta neg' by (simp add: neg_divide_le_eq)
    have 2: "of_int b \<le> t / of_int (step s)" using tb neg' by (simp add: neg_le_divide_eq)
    obtain y where "round_double (t / of_int (step s)) = Finite y" "of_int b \<le> y" "y \<le> of_int a"
      using round_double_between [OF 2 1 bb ba] by blast
    then have "of_int b \<le> q" "q \<le> of_int a" using q by simp_all
    then have "b \<le> py_round q" "py_round q \<le> a" by (simp_all add: py_round_ge py_round_le)
    then show ?thesis using a b neg by (simp add: mult_le_cancel_right)
  qed
qed

lemma quotient_error:
  assumes st: "step s \<noteq> 0" "\<bar>step s\<bar> \<le> 2 ^ 53"
    and mn: "\<bar>min_val s\<bar> \<le> 2 ^ 53" and mx: "\<bar>max_val s\<bar> \<le> 2 ^ 53"
    and le: "min_val s \<le> max_val s"
    and f: "0 \<le> f" "f \<le> 1"
    and t: "of_int (min_val s) \<le> t" "t \<le> of_int (max_val s)"
    and eq: "\<bar>q - t / of_int (step s)\<bar> \<le> \<bar>t / of_int (step s)\<bar> / 2 ^ 53 + tiny"
    and et: "\<bar>t - (of_int (min_val s) + p)\<bar> \<le> \<bar>of_int (min_val s) + p\<bar> / 2 ^ 53 + tiny"
    and p: "0 \<le> p" "p \<le> of_int (max_val s - min_val s)"
    and ep: "\<bar>p - f * of_int (max_val s - min_val s)\<bar>
                 \<le> \<bar>f * of_int (max_val s - min_val s)\<bar> / 2 ^ 53 + tiny"
  shows "2 * \<bar>q * of_int (step s) - target s f\<bar>
           \<le> (of_int (max \<bar>min_val s\<bar> \<bar>max_val s\<bar>) + 1) / 2 ^ 50"
proof -
  let ?S = "of_int (step s) :: rat"
  let ?D = "of_int (max_val s - min_val s) :: rat"
  let ?m = "of_int (min_val s) :: rat"
  let ?M = "of_int (max \<bar>min_val s\<bar> \<bar>max_val s\<bar>) :: rat"
  have S0: "?S \<noteq> 0" using st(1) by simp
  have Sb: "\<bar>?S\<bar> \<le> 2 ^ 53" using of_int_abs_le [OF st(2)] by simp
  have h: "max_val s \<le> max \<bar>min_val s\<bar> \<bar>max_val s\<bar>"
    "- max \<bar>min_val s\<bar> \<bar>max_val s\<bar> \<le> min_val s" by linarith+
  have hM: "of_int (max_val s) \<le> ?M" "- ?M \<le> ?m"
    using h by (simp_all only: of_int_le_iff flip: of_int_minus)
  have M0: "0 \<le> ?M" by simp
  have tM: "\<bar>t\<bar> \<le> ?M" using t hM by linarith
  have mpM: "\<bar>?m + p\<bar> \<le> ?M" using p hM unfolding of_int_diff by linarith
  have D0: "0 \<le> ?D" using le by simp
  have DM: "?D \<le> 2 * ?M" using hM unfolding of_int_diff by linarith
  have fD: "\<bar>f * ?D\<bar> \<le> ?D"
  proof -
    have "f * ?D \<le> 1 * ?D" using f(2) D0 by (rule mult_right_mono)
    moreover have "0 \<le> f * ?D" using f(1) D0 by simp
    ultimately show ?thesis by simp
  qed
  have t0: "0 < tiny" by (simp add: tiny_def)
  have e1: "\<bar>q * ?S - t\<bar> \<le> ?M / 2 ^ 53 + tiny * 2 ^ 53"
  proof -
    have "q * ?S - t = (q - t / ?S) * ?S" using S0 by (simp add: algebra_simps)
    then have "\<bar>q * ?S - t\<bar> = \<bar>q - t / ?S\<bar> * \<bar>?S\<bar>" by (simp only: abs_mult)
    also have "\<dots> \<le> (\<bar>t / ?S\<bar> / 2 ^ 53 + tiny) * \<bar>?S\<bar>"
      using eq by (intro mult_right_mono) simp_all
    also have "\<dots> = \<bar>t / ?S\<bar> * \<bar>?S\<bar> / 2 ^ 53 + tiny * \<bar>?S\<bar>" by (simp add: algebra_simps)
    also have "\<bar>t / ?S\<bar> * \<bar>?S\<bar> = \<bar>t\<bar>" using S0 by simp
    finally have "\<bar>q * ?S - t\<bar> \<le> \<bar>t\<bar> / 2 ^ 53 + tiny * \<bar>?S\<bar>" .
    moreover have "\<bar>t\<bar> / 2 ^ 53 \<le> ?M / 2 ^ 53" using tM by (simp add: divide_right_mono)
    moreover have "tiny * \<bar>?S\<bar> \<le> tiny * 2 ^ 53" using Sb t0 by (intro mult_left_mono) simp_all
    ultimately show ?thesis by linarith
  qed
  have e2: "\<bar>t - (?m + p)\<bar> \<le> ?M / 2 ^ 53 + tiny"
  proof -
    have "\<bar>?m + p\<bar> / 2 ^ 53 \<le> ?M / 2 ^ 53" using mpM by (simp add: divide_right_mono)
    then show ?thesis using et by linarith
  qed
  have e3: "\<bar>p - f * ?D\<bar> \<le> 2 * ?M / 2 ^ 53 + tiny"
  proof -
    have "\<bar>f * ?D\<bar> \<le> 2 * ?M" using fD DM by linarith
    then have "\<bar>f * ?D\<bar> / 2 ^ 53 \<le> 2 * ?M / 2 ^ 53" by (simp add: divide_right_mono)
    then show ?thesis using ep by linarith
  qed
  have "q * ?S - target s f = (q * ?S - t) + (t - (?m + p)) + (p - f * ?D)"
    by (simp add: target_def)
  then have "\<bar>q * ?S - target s f\<bar> \<le> \<bar>q * ?S - t\<bar> + \<bar>t - (?m + p)\<bar> + \<bar>p - f * ?D\<bar>"
    by linarith
  then have "\<bar>q * ?S - target s f\<bar> \<le> 4 * ?M / 2 ^ 53 + tiny * (2 ^ 53 + 2)"
    using e1 e2 e3 by (simp add: algebra_simps)
  also have "\<dots> \<le> 4 * ?M / 2 ^ 53 + 1 / 2 ^ 51"
    by (rule add_left_mono [OF tiny_small])
  finally have "2 * \<bar>q * ?S - target s f\<bar> \<le> 2 * (4 * ?M / 2 ^ 53 + 1 / 2 ^ 51)"
    by (rule mult_left_mono) simp
  also have "2 * (4 * ?M / 2 ^ 53 + 1 / 2 ^ 51) = (?M + 1) / 2 ^ 50" by (simp add: field_simps)
  finally show ?thesis .
qed

lemma chain4:
  fixes a b c d x e :: rat
  shows "a \<le> b + x \<Longrightarrow> b \<le> c \<Longrightarrow> c \<le> d + x \<Longrightarrow> 2 * x \<le> e \<Longrightarrow> a \<le> d + e"
  by linarith

lemma near_transfer:
  fixes v m c T e :: rat
  assumes "\<bar>v - c\<bar> \<le> \<bar>m - c\<bar>" and "2 * \<bar>c - T\<bar> \<le> e"
  shows "\<bar>v - T\<bar> \<le> \<bar>m - T\<bar> + e"
proof -
  have 1: "\<bar>v - T\<bar> \<le> \<bar>v - c\<bar> + \<bar>c - T\<bar>"
    using abs_triangle_ineq [of "v - c" "c - T"] by simp
  have 2: "\<bar>m - c\<bar> \<le> \<bar>m - T\<bar> + \<bar>c - T\<bar>"
    using abs_triangle_ineq4 [of "m - T" "c - T"] by simp
  show ?thesis by (rule chain4 [OF 1 assms(1) 2 assms(2)])
qed

text \<open>
  Claim C3, as amended. Take a fraction \<open>f\<close> of the track between 0 and 1 and a slider with
  \<open>min_val \<le> max_val\<close>, a \<open>step\<close> that is not 0, and \<open>min_val\<close>, \<open>max_val\<close>, \<open>max_val -
  min_val\<close> and \<open>step\<close> of magnitude at most \<open>2^53\<close>, so that they are exact as doubles. Then
  line 67 raises nothing and stores \<open>k * step\<close>, a multiple of \<open>step\<close>, where \<open>k\<close> is the integer
  nearest to the double \<open>q\<close> that the code computes for \<open>(min_val + f * (max_val - min_val)) /
  step\<close>, and the even one of the two when \<open>q\<close> is halfway. No multiple of \<open>step\<close> is nearer
  to the exact \<open>min_val + f * (max_val - min_val)\<close> by more than \<open>(max(|min_val|, |max_val|) +
  1) / 2^50\<close>. When \<open>step\<close> divides \<open>min_val\<close> and \<open>max_val\<close>, the value lies between them.
\<close>

theorem snap_to_step:
  assumes "0 \<le> f" and "f \<le> 1"
    and "step s \<noteq> 0" and "\<bar>step s\<bar> \<le> 2 ^ 53"
    and "\<bar>min_val s\<bar> \<le> 2 ^ 53" and "\<bar>max_val s\<bar> \<le> 2 ^ 53"
    and "min_val s \<le> max_val s" and "max_val s - min_val s \<le> 2 ^ 53"
  shows "\<exists>q k. step_quotient s (Finite f) = Inr (Finite q)
           \<and> set_from_fraction s (Finite f) = Inr (s\<lparr>slider_value := k * step s\<rparr>)
           \<and> \<bar>of_int k - q\<bar> \<le> 1 / 2
           \<and> (\<bar>of_int k - q\<bar> = 1 / 2 \<longrightarrow> even k)
           \<and> (\<forall>m. step s dvd m \<longrightarrow>
                 \<bar>of_int (k * step s) - target s f\<bar>
                   \<le> \<bar>of_int m - target s f\<bar>
                       + (of_int (max \<bar>min_val s\<bar> \<bar>max_val s\<bar>) + 1) / 2 ^ 50)
           \<and> (step s dvd min_val s \<and> step s dvd max_val s
                \<longrightarrow> min_val s \<le> k * step s \<and> k * step s \<le> max_val s)"
proof -
  let ?S = "of_int (step s) :: rat"
  let ?eps = "(of_int (max \<bar>min_val s\<bar> \<bar>max_val s\<bar>) + 1) / 2 ^ 50 :: rat"
  obtain p t q where a: "step_quotient s (Finite f) = Inr (Finite q)"
    "round_double (t / ?S) = Finite q"
    "of_int (min_val s) \<le> t" "t \<le> of_int (max_val s)"
    "\<bar>q - t / ?S\<bar> \<le> \<bar>t / ?S\<bar> / 2 ^ 53 + tiny"
    "\<bar>t - (of_int (min_val s) + p)\<bar> \<le> \<bar>of_int (min_val s) + p\<bar> / 2 ^ 53 + tiny"
    "0 \<le> p" "p \<le> of_int (max_val s - min_val s)"
    "\<bar>p - f * of_int (max_val s - min_val s)\<bar>
       \<le> \<bar>f * of_int (max_val s - min_val s)\<bar> / 2 ^ 53 + tiny"
    using quotient_analysis [OF assms] by blast
  let ?k = "py_round q"
  have set: "set_from_fraction s (Finite f) = Inr (s\<lparr>slider_value := ?k * step s\<rparr>)"
    using a(1) by (simp add: set_from_fraction_def)
  have half: "\<bar>of_int ?k - q\<bar> \<le> 1 / 2" by (rule py_round_half)
  have tie: "\<bar>of_int ?k - q\<bar> = 1 / 2 \<longrightarrow> even ?k" using py_round_tie [of q] by blast
  have err: "2 * \<bar>q * ?S - target s f\<bar> \<le> ?eps"
    by (rule quotient_error [OF assms(3-7,1,2) a(3-9)])
  have near: "\<bar>of_int (?k * step s) - target s f\<bar> \<le> \<bar>of_int m - target s f\<bar> + ?eps"
    if dv: "step s dvd m" for m
  proof -
    obtain j where j: "m = j * step s" using dv by (auto simp: dvd_def mult.commute)
    have "\<bar>of_int ?k - q\<bar> * \<bar>?S\<bar> \<le> \<bar>of_int j - q\<bar> * \<bar>?S\<bar>"
      by (rule mult_right_mono [OF py_round_nearest]) simp
    then have "\<bar>(of_int ?k - q) * ?S\<bar> \<le> \<bar>(of_int j - q) * ?S\<bar>" by (simp only: abs_mult)
    then have "\<bar>of_int (?k * step s) - q * ?S\<bar> \<le> \<bar>of_int m - q * ?S\<bar>"
      using j by (simp add: algebra_simps)
    then show ?thesis using err by (rule near_transfer)
  qed
  have range: "min_val s \<le> ?k * step s \<and> ?k * step s \<le> max_val s"
    if dv: "step s dvd min_val s \<and> step s dvd max_val s"
    using quotient_range [OF a(2,3,4) assms(3) _ _ assms(5,6)] dv by blast
  show ?thesis using a(1) set half tie near range by blast
qed

text \<open>
  The default slider at \<open>f = 1/8\<close>: the target is 12.5 and the quotient 2.5, both exact,
  halfway between 2 and 3. The theorem leaves only the even 2, so the value is 10 and not
  15, which is as near.
\<close>

theorem snap_to_step_witness:
  "step_quotient TLXSlider_default (Finite (1 / 8)) = Inr (Finite (5 / 2))
   \<and> set_from_fraction TLXSlider_default (Finite (1 / 8))
       = Inr (TLXSlider_default\<lparr>slider_value := 10\<rparr>)
   \<and> step TLXSlider_default dvd 10 \<and> step TLXSlider_default dvd 15
   \<and> \<bar>10 - target TLXSlider_default (1 / 8)\<bar> = \<bar>15 - target TLXSlider_default (1 / 8)\<bar>"
proof -
  let ?s = TLXSlider_default
  have h: "(0::rat) \<le> 1 / 8" "(1 / 8 :: rat) \<le> 1" "step ?s \<noteq> 0" "\<bar>step ?s\<bar> \<le> 2 ^ 53"
    "\<bar>min_val ?s\<bar> \<le> 2 ^ 53" "\<bar>max_val ?s\<bar> \<le> 2 ^ 53"
    "min_val ?s \<le> max_val ?s" "max_val ?s - min_val ?s \<le> 2 ^ 53"
    by (simp_all add: TLXSlider_default_def TLXSlider_init_def)
  have e: "step_quotient ?s (Finite (1 / 8)) = Inr (Finite (5 / 2))" by code_simp
  obtain q k where a: "step_quotient ?s (Finite (1 / 8)) = Inr (Finite q)"
    "set_from_fraction ?s (Finite (1 / 8)) = Inr (?s\<lparr>slider_value := k * step ?s\<rparr>)"
    "\<bar>of_int k - q\<bar> \<le> 1 / 2" "\<bar>of_int k - q\<bar> = 1 / 2 \<longrightarrow> even k"
    using snap_to_step [OF h] by blast
  have q: "q = 5 / 2" using a(1) e by simp
  have "(2 :: rat) \<le> of_int k" "(of_int k :: rat) \<le> 3"
    using a(3) unfolding q by linarith+
  then have "2 \<le> k" "k \<le> 3" by simp_all
  then have "k = 2 \<or> k = 3" by linarith
  moreover have "k \<noteq> 3" using a(4) q by auto
  ultimately have k: "k = 2" by simp
  have st: "step ?s = 5" by (simp add: TLXSlider_default_def TLXSlider_init_def)
  have v: "set_from_fraction ?s (Finite (1 / 8)) = Inr (?s\<lparr>slider_value := 10\<rparr>)"
    using a(2) k st by simp
  have t: "target ?s (1 / 8) = 25 / 2"
    by (simp add: target_def TLXSlider_default_def TLXSlider_init_def)
  show ?thesis using e v st t by simp
qed

text \<open>
  Claim C3 as written asks only that \<open>step\<close> divide \<open>max_val - min_val\<close>, and promises the
  nearest multiple in the range. With the range 1 to 11 and step 5 the left end of the
  track gives \<open>round(1 / 5) * 5 = 0\<close>, below \<open>min_val\<close>: the multiples of \<open>step\<close> are counted
  from 0, not from \<open>min_val\<close>, and the value itself is never clamped. And on the default
  slider the double \<open>f = 0.6749999999999999\<close> has its target just below 67.5, nearer to 65,
  but \<open>f * 100\<close> rounds to 67.5, the quotient to 13.5, and the value is 70. With the range 0
  to \<open>2^53 + 3\<close> and step 1 the right end of the track gives \<open>2^53 + 4\<close>, the double nearest
  to \<open>max_val\<close>. And a step of 0, which divides the empty range from 0 to 0, raises.
\<close>

theorem snap_out_of_range:
  "(0::rat) \<le> 0 \<and> (0::rat) \<le> 1
   \<and> step (TLXSlider_init 1 11 5) dvd max_val (TLXSlider_init 1 11 5) - min_val (TLXSlider_init 1 11 5)
   \<and> set_from_fraction (TLXSlider_init 1 11 5) (Finite 0)
       = Inr (TLXSlider_init 1 11 5\<lparr>slider_value := 0\<rparr>)
   \<and> \<not> min_val (TLXSlider_init 1 11 5) \<le> 0
   \<and> (0::rat) \<le> 6079859496950169 / 9007199254740992
   \<and> (6079859496950169 / 9007199254740992 :: rat) \<le> 1
   \<and> step TLXSlider_default dvd max_val TLXSlider_default - min_val TLXSlider_default
   \<and> set_from_fraction TLXSlider_default (Finite (6079859496950169 / 9007199254740992))
       = Inr (TLXSlider_default\<lparr>slider_value := 70\<rparr>)
   \<and> step TLXSlider_default dvd 65
   \<and> min_val TLXSlider_default \<le> 65 \<and> 65 \<le> max_val TLXSlider_default
   \<and> \<bar>65 - target TLXSlider_default (6079859496950169 / 9007199254740992)\<bar>
       < \<bar>70 - target TLXSlider_default (6079859496950169 / 9007199254740992)\<bar>
   \<and> step (TLXSlider_init 0 (2 ^ 53 + 3) 1)
         dvd max_val (TLXSlider_init 0 (2 ^ 53 + 3) 1) - min_val (TLXSlider_init 0 (2 ^ 53 + 3) 1)
   \<and> set_from_fraction (TLXSlider_init 0 (2 ^ 53 + 3) 1) (Finite 1)
       = Inr (TLXSlider_init 0 (2 ^ 53 + 3) 1\<lparr>slider_value := 2 ^ 53 + 4\<rparr>)
   \<and> \<not> 2 ^ 53 + 4 \<le> max_val (TLXSlider_init 0 (2 ^ 53 + 3) 1)
   \<and> step (TLXSlider_init 0 0 0) dvd max_val (TLXSlider_init 0 0 0) - min_val (TLXSlider_init 0 0 0)
   \<and> set_from_fraction (TLXSlider_init 0 0 0) (Finite 0) = Inl ZeroDivisionError"
  by code_simp

text \<open>
  Whatever the pointer's position, a widget more than 20 wide gives a fraction of the
  track between 0 and 1.
\<close>

lemma track_fraction:
  assumes "20 < w" and "w < 2 ^ 31"
  shows "\<exists>f. true_div (relative_x (w - 20) x) (w - 20) = Inr (Finite f) \<and> 0 \<le> f \<and> f \<le> 1"
proof -
  let ?width = "w - 20"
  let ?y = "round_double (x - 10)"
  have pos: "0 < ?width" using assms(1) by simp
  have small: "\<bar>?width\<bar> \<le> 2 ^ 53" using assms by simp
  have conv: "float_of_int ?width = Inr (Finite (of_int ?width))"
    by (rule float_of_int_exact [OF small])
  show ?thesis
  proof (cases "float_gt_int ?y 0")
    case False
    then have "relative_x ?width x = PyInt 0" using pos by (simp add: relative_x_def)
    then show ?thesis using pos by (simp add: true_div_def round_double_def)
  next
    case True
    show ?thesis
    proof (cases "float_gt_int ?y ?width")
      case True
      then have "relative_x ?width x = PyInt ?width"
        using \<open>float_gt_int ?y 0\<close> by (simp add: relative_x_def)
      then show ?thesis using pos round_double_1 by (simp add: true_div_def)
    next
      case False
      then have rel: "relative_x ?width x = PyFloat ?y"
        using \<open>float_gt_int ?y 0\<close> by (simp add: relative_x_def)
      obtain r where r: "?y = Finite r" "0 < r" "r \<le> of_int ?width"
        using \<open>float_gt_int ?y 0\<close> False by (cases ?y) auto
      have wpos: "(0::rat) < of_int ?width" using pos by simp
      have 1: "of_int 0 \<le> r / of_int ?width" using r(2) wpos by simp
      have 2: "r / of_int ?width \<le> of_int 1" using r(3) wpos by (simp add: pos_divide_le_eq)
      obtain f where f: "round_double (r / of_int ?width) = Finite f" "of_int 0 \<le> f" "f \<le> of_int 1"
        using round_double_between [OF 1 2] by auto
      have "true_div (relative_x ?width x) ?width = Inr (Finite f)"
        using rel r(1) conv f(1) pos by (simp add: true_div_def)
      then show ?thesis using f(2,3) by simp
    qed
  qed
qed

text \<open>
  Claim C10, as amended. Take a widget more than 20 wide (and less than \<open>2^31\<close>, as every
  width of Qt) and a slider with \<open>min_val \<le> max_val\<close>, a \<open>step\<close> that is not 0, and
  \<open>min_val\<close>, \<open>max_val\<close>, \<open>max_val - min_val\<close> and \<open>step\<close> of magnitude at most \<open>2^53\<close>. Then
  \<open>update_value\<close> raises nothing and stores a multiple of \<open>step\<close>, whatever the pointer's
  position; when \<open>step\<close> divides \<open>min_val\<close> and \<open>max_val\<close>, as for the default slider, that
  value lies between \<open>min_val\<close> and \<open>max_val\<close>.
\<close>

theorem update_value_in_range:
  assumes "20 < widget_width" and "widget_width < 2 ^ 31"
    and "step s \<noteq> 0" and "\<bar>step s\<bar> \<le> 2 ^ 53"
    and "\<bar>min_val s\<bar> \<le> 2 ^ 53" and "\<bar>max_val s\<bar> \<le> 2 ^ 53"
    and "min_val s \<le> max_val s" and "max_val s - min_val s \<le> 2 ^ 53"
  shows "\<exists>k. update_value s widget_width x = Inr (s\<lparr>slider_value := k * step s\<rparr>)
           \<and> (step s dvd min_val s \<and> step s dvd max_val s
                \<longrightarrow> min_val s \<le> k * step s \<and> k * step s \<le> max_val s)"
proof -
  obtain f where f: "true_div (relative_x (widget_width - 20) x) (widget_width - 20) = Inr (Finite f)"
    "0 \<le> f" "f \<le> 1"
    using track_fraction [OF assms(1,2)] by blast
  let ?S = "of_int (step s) :: rat"
  obtain t q where a: "step_quotient s (Finite f) = Inr (Finite q)"
    "round_double (t / ?S) = Finite q"
    "of_int (min_val s) \<le> t" "t \<le> of_int (max_val s)"
    using quotient_analysis [OF f(2,3) assms(3-8)] by blast
  let ?k = "py_round q"
  have "update_value s widget_width x = Inr (s\<lparr>slider_value := ?k * step s\<rparr>)"
    using f(1) a(1) by (simp add: update_value_def set_from_fraction_def)
  moreover have "min_val s \<le> ?k * step s \<and> ?k * step s \<le> max_val s"
    if dv: "step s dvd min_val s \<and> step s dvd max_val s"
    using quotient_range [OF a(2,3,4) assms(3) _ _ assms(5,6)] dv by blast
  ultimately show ?thesis by blast
qed

text \<open>
  A default slider 700 wide with the pointer at 401: the track is 680 wide, the pointer
  is 391 into it, and 391 / 680 as a double is just below 0.575, so the quotient is just
  below 11.5 and the value is 55.
\<close>

theorem update_value_in_range_witness:
  "(20::int) < 700 \<and> (700::int) < 2 ^ 31
   \<and> step TLXSlider_default dvd min_val TLXSlider_default
   \<and> step TLXSlider_default dvd max_val TLXSlider_default
   \<and> update_value TLXSlider_default 700 401 = Inr (TLXSlider_default\<lparr>slider_value := 55\<rparr>)
   \<and> (\<exists>k. update_value TLXSlider_default 700 401
              = Inr (TLXSlider_default\<lparr>slider_value := k * step TLXSlider_default\<rparr>)
           \<and> min_val TLXSlider_default \<le> k * step TLXSlider_default
           \<and> k * step TLXSlider_default \<le> max_val TLXSlider_default)"
proof -
  let ?s = TLXSlider_default
  have w: "(20::int) < 700" "(700::int) < 2 ^ 31" by simp_all
  have h: "step ?s \<noteq> 0" "\<bar>step ?s\<bar> \<le> 2 ^ 53"
    "\<bar>min_val ?s\<bar> \<le> 2 ^ 53" "\<bar>max_val ?s\<bar> \<le> 2 ^ 53"
    "min_val ?s \<le> max_val ?s" "max_val ?s - min_val ?s \<le> 2 ^ 53"
    by (simp_all add: TLXSlider_default_def TLXSlider_init_def)
  have d: "step ?s dvd min_val ?s" "step ?s dvd max_val ?s"
    by (simp_all add: TLXSlider_default_def TLXSlider_init_def)
  have e: "update_value ?s 700 401 = Inr (?s\<lparr>slider_value := 55\<rparr>)" by code_simp
  show ?thesis using w d e update_value_in_range [OF w h, of 401] by blast
qed

text \<open>
  Claim C10 as written has the width as its only precondition. A slider from 0 to 11 with
  step 4, 120 wide, with the pointer at the right end of the track: the target 11 is 2.75
  steps, rounded to 3, and the value 12 is above \<open>max_val\<close>. And a slider from 0 to
  \<open>2^53 + 3\<close> with step 1, which divides both ends: at the right end of the track the
  conversion of \<open>max_val\<close> to a double gives \<open>2^53 + 4\<close>, which is the value stored. And
  with a step of 0 the division by \<open>step\<close> raises, however wide the widget.
\<close>

theorem update_value_overshoot:
  "(20::int) < 120 \<and> (120::int) < 2 ^ 31
   \<and> update_value (TLXSlider_init 0 11 4) 120 110 = Inr (TLXSlider_init 0 11 4\<lparr>slider_value := 12\<rparr>)
   \<and> \<not> 12 \<le> max_val (TLXSlider_init 0 11 4)
   \<and> (20::int) < 720 \<and> (720::int) < 2 ^ 31
   \<and> step (TLXSlider_init 0 (2 ^ 53 + 3) 1) dvd min_val (TLXSlider_init 0 (2 ^ 53 + 3) 1)
   \<and> step (TLXSlider_init 0 (2 ^ 53 + 3) 1) dvd max_val (TLXSlider_init 0 (2 ^ 53 + 3) 1)
   \<and> update_value (TLXSlider_init 0 (2 ^ 53 + 3) 1) 720 710
       = Inr (TLXSlider_init 0 (2 ^ 53 + 3) 1\<lparr>slider_value := 2 ^ 53 + 4\<rparr>)
   \<and> \<not> 2 ^ 53 + 4 \<le> max_val (TLXSlider_init 0 (2 ^ 53 + 3) 1)
   \<and> update_value (TLXSlider_init 0 100 0) 700 401 = Inl ZeroDivisionError"
  by code_simp

text \<open>The unguarded division: a widget exactly 20 wide.\<close>

lemma update_value_width_20: "update_value s 20 x = Inl ZeroDivisionError"
proof -
  have z: "float_of_int 0 = Inr (Finite 0)" by (simp add: float_of_int_def round_double_def)
  have "fdiv y (Finite 0) = Inl ZeroDivisionError" for y by (cases y) simp_all
  then have "true_div a 0 = Inl ZeroDivisionError" for a
    using z by (cases a) (simp_all add: true_div_def)
  then show ?thesis by (simp add: update_value_def)
qed

subsection \<open>Dictionaries and the score\<close>

lemma dict_set_fresh: "k \<notin> fst ` set d \<Longrightarrow> dict_set d k v = d @ [(k, v)]"
  by (induction d) auto

lemma dict_comp_distinct:
  "distinct ks \<Longrightarrow> set ks \<inter> fst ` set d = {} \<Longrightarrow> (\<And>k. k \<in> set ks \<Longrightarrow> e k = Inr (v k))
   \<Longrightarrow> dict_comp e ks d = Inr (d @ map (\<lambda>k. (k, v k)) ks)"
proof (induction ks arbitrary: d)
  case Nil
  then show ?case by simp
next
  case (Cons k ks)
  have fresh: "k \<notin> fst ` set d" using Cons.prems(2) by auto
  have step: "dict_set d k (v k) = d @ [(k, v k)]" by (rule dict_set_fresh [OF fresh])
  have disj: "set ks \<inter> fst ` set (d @ [(k, v k)]) = {}"
    using Cons.prems(1,2) by auto
  have "dict_comp e ks (d @ [(k, v k)]) = Inr ((d @ [(k, v k)]) @ map (\<lambda>k. (k, v k)) ks)"
    using Cons.prems(1,3) disj by (intro Cons.IH) auto
  then show ?case using Cons.prems(3) [of k] step by simp
qed

lemma list_index_nth: "distinct xs \<Longrightarrow> i < length xs \<Longrightarrow> list_index xs (xs ! i) = Inr i"
proof (induction xs arbitrary: i)
  case Nil
  then show ?case by simp
next
  case (Cons y ys)
  show ?case
  proof (cases i)
    case 0
    then show ?thesis by simp
  next
    case (Suc j)
    then have "j < length ys" using Cons.prems by simp
    moreover have "ys ! j \<noteq> y" using Cons.prems \<open>j < length ys\<close> by auto
    ultimately show ?thesis using Cons Suc by auto
  qed
qed

lemma distinct_FACTORS: "distinct FACTORS"
  by (simp add: FACTORS_def)

lemma length_FACTORS: "length FACTORS = 6"
  by (simp add: FACTORS_def)

lemma map_of_comp: "f \<in> set ks \<Longrightarrow> map_of (map (\<lambda>k. (k, v k)) ks) f = Some (v f)"
  by (induction ks) auto

lemma read_rating_page:
  assumes "map get_value (pages app) = map R FACTORS" and "f \<in> set FACTORS"
  shows "read_rating app f = Inr (R f)"
proof -
  obtain i where i: "i < length FACTORS" "f = FACTORS ! i"
    using assms(2) by (auto simp: in_set_conv_nth)
  have len: "length (pages app) = length FACTORS"
    using assms(1) by (metis length_map)
  have idx: "list_index FACTORS f = Inr i"
    using i list_index_nth [OF distinct_FACTORS] by simp
  have "get_value (pages app ! i) = map get_value (pages app) ! i"
    using i len by simp
  also have "\<dots> = R f" using assms(1) i by simp
  finally show ?thesis using idx i len by (simp add: read_rating_def page_slider_def)
qed

lemma ratings_comp:
  assumes "map get_value (pages app) = map R FACTORS"
  shows "dict_comp (read_rating app) FACTORS [] = Inr (map (\<lambda>f. (f, R f)) FACTORS)"
  using dict_comp_distinct [OF distinct_FACTORS, of "[]" "read_rating app" R]
    read_rating_page [OF assms] by simp

lemma adjusted_comp:
  assumes "ratings app = map (\<lambda>f. (f, R f)) FACTORS"
    and "\<And>f. f \<in> set FACTORS \<Longrightarrow> map_of (weights app) f = Some (W f)"
  shows "dict_comp (adjust app) FACTORS [] = Inr (map (\<lambda>f. (f, R f * W f)) FACTORS)"
proof -
  have "adjust app f = Inr (R f * W f)" if "f \<in> set FACTORS" for f
    using that assms by (simp add: adjust_def dict_item_def map_of_comp)
  then show ?thesis
    using dict_comp_distinct [OF distinct_FACTORS, of "[]" "adjust app" "\<lambda>f. R f * W f"] by simp
qed

lemma build_result_weighted:
  assumes "use_weighting app"
    and "map get_value (pages app) = map R FACTORS"
    and "\<And>f. f \<in> set FACTORS \<Longrightarrow> map_of (weights app) f = Some (W f)"
  shows "build_result now app =
     Inr (app\<lparr>ratings := map (\<lambda>f. (f, R f)) FACTORS\<rparr>,
          \<lparr>res_timestamp = now,
           res_ratings = map (\<lambda>f. (f, R f)) FACTORS,
           res_weights = weights app,
           res_adjusted_ratings = map (\<lambda>f. (f, R f * W f)) FACTORS,
           res_weighted_rating = of_int (\<Sum>f\<leftarrow>FACTORS. R f * W f) / 15\<rparr>)"
proof -
  let ?app = "app\<lparr>ratings := map (\<lambda>f. (f, R f)) FACTORS\<rparr>"
  have rs: "dict_comp (read_rating app) FACTORS [] = Inr (map (\<lambda>f. (f, R f)) FACTORS)"
    by (rule ratings_comp [OF assms(2)])
  have adj: "dict_comp (adjust ?app) FACTORS [] = Inr (map (\<lambda>f. (f, R f * W f)) FACTORS)"
    using assms(3) by (intro adjusted_comp) simp_all
  have vals: "dict_values (map (\<lambda>f. (f, R f * W f)) FACTORS) = map (\<lambda>f. R f * W f) FACTORS"
    by (simp add: dict_values_def comp_def)
  show ?thesis
    using assms(1) rs adj vals by (simp add: build_result_def)
qed

lemma build_result_unweighted:
  assumes "\<not> use_weighting app"
    and "map get_value (pages app) = map R FACTORS"
  shows "build_result now app =
     Inr (app\<lparr>ratings := map (\<lambda>f. (f, R f)) FACTORS\<rparr>,
          \<lparr>res_timestamp = now,
           res_ratings = map (\<lambda>f. (f, R f)) FACTORS,
           res_weights = [],
           res_adjusted_ratings = [],
           res_weighted_rating = of_int (\<Sum>f\<leftarrow>FACTORS. R f) / 6\<rparr>)"
proof -
  have rs: "dict_comp (read_rating app) FACTORS [] = Inr (map (\<lambda>f. (f, R f)) FACTORS)"
    by (rule ratings_comp [OF assms(2)])
  have vals: "dict_values (map (\<lambda>f. (f, R f)) FACTORS) = map R FACTORS"
    by (simp add: dict_values_def comp_def)
  show ?thesis
    using assms(1) rs vals by (simp add: build_result_def length_FACTORS)
qed

lemma ratings_exist:
  assumes "length ps = length FACTORS"
  shows "\<exists>R. map get_value ps = map R FACTORS"
proof -
  let ?R = "\<lambda>f. the (map_of (zip FACTORS (map get_value ps)) f)"
  have "map get_value ps = map ?R FACTORS"
  proof (rule nth_equalityI)
    show "length (map get_value ps) = length (map ?R FACTORS)" using assms by simp
  next
    fix i assume "i < length (map get_value ps)"
    then have i: "i < length FACTORS" using assms by simp
    have "map_of (zip FACTORS (map get_value ps)) (FACTORS ! i) = Some (map get_value ps ! i)"
      using assms i distinct_FACTORS by (intro map_of_zip_nth) simp_all
    then show "map get_value ps ! i = map ?R FACTORS ! i" using i by simp
  qed
  then show ?thesis by blast
qed

lemma mouse_event_keeps:
  "use_weighting (mouse_event i w x app) = use_weighting app"
  "weights (mouse_event i w x app) = weights app"
  "button_groups (mouse_event i w x app) = button_groups app"
  "length (pages (mouse_event i w x app)) = length (pages app)"
  by (simp_all add: mouse_event_def split: sum.splits)

lemma mouse_events_keeps:
  "use_weighting (mouse_events es app) = use_weighting app
   \<and> weights (mouse_events es app) = weights app
   \<and> button_groups (mouse_events es app) = button_groups app
   \<and> length (pages (mouse_events es app)) = length (pages app)"
  by (induction es app rule: mouse_events.induct) (simp_all add: mouse_event_keeps)

text \<open>
  Claim C1. With weighting enabled, sliders showing the ratings \<open>R\<close> and weights \<open>W\<close>, the
  record that Finish builds and hands to \<open>save_to_files\<close> has \<open>adjusted_ratings[f] = R f * W f\<close>
  for each of the six factors and \<open>weighted_rating\<close> equal to the sum of these products
  divided by 15. No bound on \<open>R\<close> or \<open>W\<close> is needed.
\<close>
theorem weighted_score:
  assumes "use_weighting app"
    and "map get_value (pages app) = map R FACTORS"
    and "\<forall>f \<in> set FACTORS. map_of (weights app) f = Some (W f)"
  shows "\<exists>app' rd. build_result now app = Inr (app', rd)
           \<and> save_results now app fs =
               (case save_to_files True rd fs of Inl err \<Rightarrow> Inl err | Inr fs' \<Rightarrow> Inr (app', fs'))
           \<and> res_ratings rd = map (\<lambda>f. (f, R f)) FACTORS
           \<and> res_weights rd = weights app
           \<and> res_adjusted_ratings rd = map (\<lambda>f. (f, R f * W f)) FACTORS
           \<and> res_weighted_rating rd = of_int (\<Sum>f\<leftarrow>FACTORS. R f * W f) / 15"
  using assms build_result_weighted [of app R W now]
  by (simp add: save_results_def)

text \<open>
  The scenario of the specification: all ratings at their default 50 and every comparison
  won by Mental Demand, so its weight is 15 and the others are 0; the score is 50.
\<close>

theorem weighted_score_witness:
  "use_weighting ((TLXApp_init True)\<lparr>weights := map (\<lambda>f. (f, if f = ''Mental Demand'' then 15 else 0)) FACTORS\<rparr>)
   \<and> (\<exists>app' rd. build_result ''2025-01-01T12:00:00''
          ((TLXApp_init True)\<lparr>weights := map (\<lambda>f. (f, if f = ''Mental Demand'' then 15 else 0)) FACTORS\<rparr>)
          = Inr (app', rd)
        \<and> res_adjusted_ratings rd = map (\<lambda>f. (f, if f = ''Mental Demand'' then 750 else 0)) FACTORS
        \<and> res_weighted_rating rd = 50)"
proof -
  let ?W = "\<lambda>f. if f = ''Mental Demand'' then 15 else (0::int)"
  let ?app = "(TLXApp_init True)\<lparr>weights := map (\<lambda>f. (f, ?W f)) FACTORS\<rparr>"
  have h1: "use_weighting ?app" by (simp add: TLXApp_init_def)
  have h2: "map get_value (pages ?app) = map (\<lambda>f. 50) FACTORS"
    by (simp add: TLXApp_init_def create_rating_page_def TLXSlider_default_def
        TLXSlider_init_def get_value_def)
  have h3: "\<forall>f \<in> set FACTORS. map_of (weights ?app) f = Some (?W f)"
    by (simp add: map_of_comp)
  have s: "(\<Sum>f\<leftarrow>FACTORS. 50 * ?W f) = 750" by (simp add: FACTORS_def)
  have m: "map (\<lambda>f. (f, 50 * ?W f)) FACTORS = map (\<lambda>f. (f, if f = ''Mental Demand'' then 750 else 0)) FACTORS"
    by simp
  show ?thesis
    using h1 weighted_score [OF h1 h2 h3, of "''2025-01-01T12:00:00''" "\<lparr>json_file = None, csv_file = None\<rparr>"] s m
    by auto
qed

text \<open>
  Claim C2. With weighting disabled, \<open>weighted_rating\<close> is the sum of the six ratings divided
  by 6, and the record's \<open>weights\<close> and \<open>adjusted_ratings\<close> are empty.
\<close>
theorem unweighted_score:
  assumes "\<not> use_weighting app"
    and "map get_value (pages app) = map R FACTORS"
  shows "\<exists>app' rd. build_result now app = Inr (app', rd)
           \<and> save_results now app fs =
               (case save_to_files False rd fs of Inl err \<Rightarrow> Inl err | Inr fs' \<Rightarrow> Inr (app', fs'))
           \<and> res_ratings rd = map (\<lambda>f. (f, R f)) FACTORS
           \<and> res_weights rd = []
           \<and> res_adjusted_ratings rd = []
           \<and> res_weighted_rating rd = of_int (\<Sum>f\<leftarrow>FACTORS. R f) / 6"
  using assms build_result_unweighted [of app R now]
  by (simp add: save_results_def)

text \<open>All six sliders at their default 50, weighting disabled: the score is 50.\<close>

theorem unweighted_score_witness:
  "\<not> use_weighting (TLXApp_init False)
   \<and> (\<exists>app' rd. build_result ''2025-01-01T12:00:00'' (TLXApp_init False) = Inr (app', rd)
        \<and> res_weights rd = [] \<and> res_adjusted_ratings rd = []
        \<and> res_weighted_rating rd = 50)"
proof -
  have h1: "\<not> use_weighting (TLXApp_init False)" by (simp add: TLXApp_init_def)
  have h2: "map get_value (pages (TLXApp_init False)) = map (\<lambda>f. 50) FACTORS"
    by (simp add: TLXApp_init_def create_rating_page_def TLXSlider_default_def
        TLXSlider_init_def get_value_def)
  have s: "(\<Sum>f\<leftarrow>FACTORS. (50::int)) = 300" by (simp add: FACTORS_def)
  show ?thesis
    using h1 unweighted_score [OF h1 h2, of "''2025-01-01T12:00:00''" "\<lparr>json_file = None, csv_file = None\<rparr>"] s
    by auto
qed

text \<open>
  Claim C9. A survey with weighting enabled in which only sliders are moved, so that
  \<open>update_weights\<close> never runs: the weights are still the six zeros of \<open>__init__\<close>, every
  adjusted rating is 0 and so is \<open>weighted_rating\<close>, whatever the sliders show.
\<close>
theorem no_choice_zero_score:
  "\<exists>app' rd. build_result now (mouse_events es (TLXApp_init True)) = Inr (app', rd)
      \<and> weights app' = map (\<lambda>f. (f, 0)) FACTORS
      \<and> res_weights rd = map (\<lambda>f. (f, 0)) FACTORS
      \<and> res_adjusted_ratings rd = map (\<lambda>f. (f, 0)) FACTORS
      \<and> res_weighted_rating rd = 0"
proof -
  let ?app = "mouse_events es (TLXApp_init True)"
  have keep: "use_weighting ?app" "weights ?app = map (\<lambda>f. (f, 0)) FACTORS"
    "length (pages ?app) = length FACTORS"
    using mouse_events_keeps [of es "TLXApp_init True"] by (simp_all add: TLXApp_init_def)
  obtain R where R: "map get_value (pages ?app) = map R FACTORS"
    using ratings_exist [OF keep(3)] by blast
  have W: "map_of (weights ?app) f = Some 0" if "f \<in> set FACTORS" for f
    using that keep(2) by (simp add: map_of_comp)
  show ?thesis
    using build_result_weighted [OF keep(1) R W, of now] keep(2) by simp
qed

text \<open>
  Two slider movements (Mental Demand to 40, Performance to 100) and no comparison: the
  ratings are recorded, the score is 0.
\<close>

theorem no_choice_zero_score_witness:
  "\<exists>app' rd. build_result ''2025-01-01T12:00:00''
       (mouse_events [(0, 720, 545 / 2), (3, 720, 1000)] (TLXApp_init True)) = Inr (app', rd)
      \<and> res_ratings rd = [(''Mental Demand'', 40), (''Physical Demand'', 50), (''Temporal Demand'', 50),
                           (''Performance'', 100), (''Effort'', 50), (''Frustration'', 50)]
      \<and> res_adjusted_ratings rd = map (\<lambda>f. (f, 0)) FACTORS
      \<and> res_weighted_rating rd = 0"
proof -
  have "build_result ''2025-01-01T12:00:00''
       (mouse_events [(0, 720, 545 / 2), (3, 720, 1000)] (TLXApp_init True))
     = Inr (mouse_events [(0, 720, 545 / 2), (3, 720, 1000)] (TLXApp_init True)
              \<lparr>ratings := [(''Mental Demand'', 40), (''Physical Demand'', 50), (''Temporal Demand'', 50),
                           (''Performance'', 100), (''Effort'', 50), (''Frustration'', 50)]\<rparr>,
            \<lparr>res_timestamp = ''2025-01-01T12:00:00'',
             res_ratings = [(''Mental Demand'', 40), (''Physical Demand'', 50), (''Temporal Demand'', 50),
                           (''Performance'', 100), (''Effort'', 50), (''Frustration'', 50)],
             res_weights = map (\<lambda>f. (f, 0)) FACTORS,
             res_adjusted_ratings = map (\<lambda>f. (f, 0)) FACTORS,
             res_weighted_rating = 0\<rparr>)"
    by code_simp
  then show ?thesis
    using no_choice_zero_score [of "''2025-01-01T12:00:00''" "[(0, 720, 545 / 2), (3, 720, 1000)]"]
    by auto
qed

subsection \<open>Recomputing the weights\<close>

lemma tally_card:
  "tally gs f = int (card {i. i < length gs \<and> checkedButton (gs ! i) = Some f})"
  by (simp add: tally_def sum_list_triv length_filter_conv_card)

lemma update_weights_tally:
  assumes "button_groups app = Some gs"
  shows "update_weights app =
     Inr (app\<lparr>weights := map (\<lambda>f. (f, tally gs f)) FACTORS\<rparr>, 15 < (\<Sum>f\<leftarrow>FACTORS. tally gs f))"
proof -
  have "dict_comp (\<lambda>factor. Inr (tally gs factor)) FACTORS [] = Inr (map (\<lambda>f. (f, tally gs f)) FACTORS)"
    using dict_comp_distinct [OF distinct_FACTORS, of "[]" "\<lambda>factor. Inr (tally gs factor)" "tally gs"]
    by simp
  then show ?thesis using assms by (simp add: update_weights_def dict_values_def comp_def)
qed

subsection \<open>The rows of the weighting page\<close>

lemma page_len: "length create_weighting_page = 15"
  by (simp add: create_weighting_page_def FACTORS_def)

lemma page_pairs:
  "map (\<lambda>g. (rb1 g, rb2 g)) create_weighting_page
     = concat (map (\<lambda>i. map (\<lambda>j. (FACTORS ! i, FACTORS ! j)) [Suc i..<length FACTORS]) [0..<length FACTORS])"
  by code_simp

lemma page_distinct: "distinct (map (\<lambda>g. {rb1 g, rb2 g}) create_weighting_page)"
  by (simp add: create_weighting_page_def FACTORS_def doubleton_eq_iff)

lemma page_cover:
  "\<forall>a \<in> set FACTORS. \<forall>b \<in> set FACTORS. a \<noteq> b \<longrightarrow>
      (\<exists>g \<in> set create_weighting_page. {rb1 g, rb2 g} = {a, b})"
  by (simp add: create_weighting_page_def FACTORS_def doubleton_eq_iff)

lemma page_rows_wf:
  "\<forall>g \<in> set create_weighting_page. checked g = None \<and> rb1 g \<noteq> rb2 g"
  by (simp add: create_weighting_page_def FACTORS_def)

lemma page_choose: "length create_weighting_page = length FACTORS choose 2"
  by (simp add: page_len length_FACTORS choose_two)

lemma same_rows_distinct_labels:
  assumes "map (\<lambda>g. (rb1 g, rb2 g)) gs = map (\<lambda>g. (rb1 g, rb2 g)) create_weighting_page"
    and "i < length gs"
  shows "rb1 (gs ! i) \<noteq> rb2 (gs ! i)"
proof -
  have len: "length gs = length create_weighting_page"
    using assms(1) by (metis length_map)
  have "map (\<lambda>g. (rb1 g, rb2 g)) gs ! i = map (\<lambda>g. (rb1 g, rb2 g)) create_weighting_page ! i"
    using assms(1) by simp
  then have "rb1 (gs ! i) = rb1 (create_weighting_page ! i)" "rb2 (gs ! i) = rb2 (create_weighting_page ! i)"
    using assms(2) len by simp_all
  moreover have "create_weighting_page ! i \<in> set create_weighting_page"
    using assms(2) len by simp
  ultimately show ?thesis using page_rows_wf by auto
qed

text \<open>
  Claim C8. The weighting page has 15 rows, as many as there are 2-element subsets of the
  six factors: the rows are the pairs \<open>(FACTORS ! i, FACTORS ! j)\<close> with \<open>i < j\<close>, in
  lexicographic order of \<open>(i, j)\<close>; no two rows have the same two factors, every two distinct
  factors have their row, and nothing is checked at first. A click on one button of row
  \<open>i\<close> leaves that button checked and not the other one of the row, and leaves every other
  row as it was.
\<close>

theorem weighting_page_rows:
  assumes "button_groups app = Some gs"
    and "map (\<lambda>g. (rb1 g, rb2 g)) gs = map (\<lambda>g. (rb1 g, rb2 g)) create_weighting_page"
    and "i < length gs"
  shows "length create_weighting_page = 15
     \<and> length create_weighting_page = length FACTORS choose 2
     \<and> map (\<lambda>g. (rb1 g, rb2 g)) create_weighting_page
         = concat (map (\<lambda>i. map (\<lambda>j. (FACTORS ! i, FACTORS ! j)) [Suc i..<length FACTORS])
                     [0..<length FACTORS])
     \<and> distinct (map (\<lambda>g. {rb1 g, rb2 g}) create_weighting_page)
     \<and> (\<forall>a \<in> set FACTORS. \<forall>b \<in> set FACTORS. a \<noteq> b \<longrightarrow>
           (\<exists>g \<in> set create_weighting_page. {rb1 g, rb2 g} = {a, b}))
     \<and> (\<forall>g \<in> set create_weighting_page. checked g = None \<and> rb1 g \<noteq> rb2 g)
     \<and> (\<exists>app' warn gs'. click i b app = Inr (app', warn)
           \<and> button_groups app' = Some gs'
           \<and> map (\<lambda>g. (rb1 g, rb2 g)) gs' = map (\<lambda>g. (rb1 g, rb2 g)) gs
           \<and> checkedButton (gs' ! i) = Some (case b of Rb1 \<Rightarrow> rb1 (gs ! i) | Rb2 \<Rightarrow> rb2 (gs ! i))
           \<and> checkedButton (gs' ! i) \<noteq> Some (case b of Rb1 \<Rightarrow> rb2 (gs ! i) | Rb2 \<Rightarrow> rb1 (gs ! i))
           \<and> (\<forall>j < length gs. j \<noteq> i \<longrightarrow> gs' ! j = gs ! j))"
proof -
  let ?gs = "gs[i := (gs ! i)\<lparr>checked := Some b\<rparr>]"
  let ?app = "app\<lparr>button_groups := Some ?gs\<rparr>"
  have c: "click i b app = update_weights ?app"
    using assms(1,3) by (simp add: click_def)
  have u: "update_weights ?app
      = Inr (?app\<lparr>weights := map (\<lambda>f. (f, tally ?gs f)) FACTORS\<rparr>, 15 < (\<Sum>f\<leftarrow>FACTORS. tally ?gs f))"
    by (rule update_weights_tally) simp
  have ne: "rb1 (gs ! i) \<noteq> rb2 (gs ! i)"
    by (rule same_rows_distinct_labels [OF assms(2,3)])
  have rows: "map (\<lambda>g. (rb1 g, rb2 g)) ?gs = map (\<lambda>g. (rb1 g, rb2 g)) gs"
    using assms(3) by (simp add: map_update list_update_same_conv)
  have chk: "checkedButton (?gs ! i) = Some (case b of Rb1 \<Rightarrow> rb1 (gs ! i) | Rb2 \<Rightarrow> rb2 (gs ! i))"
    using assms(3) by (simp add: checkedButton_def split: radio.splits)
  have excl: "checkedButton (?gs ! i) \<noteq> Some (case b of Rb1 \<Rightarrow> rb2 (gs ! i) | Rb2 \<Rightarrow> rb1 (gs ! i))"
    using assms(3) ne by (simp add: checkedButton_def split: radio.splits)
  have indep: "\<forall>j < length gs. j \<noteq> i \<longrightarrow> ?gs ! j = gs ! j" by simp
  have clk: "\<exists>app' warn gs'. click i b app = Inr (app', warn)
           \<and> button_groups app' = Some gs'
           \<and> map (\<lambda>g. (rb1 g, rb2 g)) gs' = map (\<lambda>g. (rb1 g, rb2 g)) gs
           \<and> checkedButton (gs' ! i) = Some (case b of Rb1 \<Rightarrow> rb1 (gs ! i) | Rb2 \<Rightarrow> rb2 (gs ! i))
           \<and> checkedButton (gs' ! i) \<noteq> Some (case b of Rb1 \<Rightarrow> rb2 (gs ! i) | Rb2 \<Rightarrow> rb1 (gs ! i))
           \<and> (\<forall>j < length gs. j \<noteq> i \<longrightarrow> gs' ! j = gs ! j)"
    using c u rows chk excl indep
    by (intro exI [of _ "?app\<lparr>weights := map (\<lambda>f. (f, tally ?gs f)) FACTORS\<rparr>"]
        exI [of _ "15 < (\<Sum>f\<leftarrow>FACTORS. tally ?gs f)"] exI [of _ ?gs]) simp
  show ?thesis
    using page_len page_choose page_pairs page_distinct page_cover page_rows_wf clk
    by (intro conjI)
qed

text \<open>The first click of a survey, on Mental Demand in the first row.\<close>

theorem weighting_page_rows_witness:
  "button_groups (TLXApp_init True) = Some create_weighting_page
   \<and> (0::nat) < length create_weighting_page
   \<and> length create_weighting_page = 15
   \<and> (\<exists>app' warn gs'. click 0 Rb1 (TLXApp_init True) = Inr (app', warn)
           \<and> button_groups app' = Some gs'
           \<and> checkedButton (gs' ! 0) = Some ''Mental Demand''
           \<and> checkedButton (gs' ! 0) \<noteq> Some ''Physical Demand''
           \<and> (\<forall>j < length create_weighting_page. j \<noteq> 0 \<longrightarrow> gs' ! j = create_weighting_page ! j))"
proof -
  have h1: "button_groups (TLXApp_init True) = Some create_weighting_page"
    by (simp add: TLXApp_init_def)
  have h2: "map (\<lambda>g. (rb1 g, rb2 g)) create_weighting_page = map (\<lambda>g. (rb1 g, rb2 g)) create_weighting_page"
    by simp
  have h3: "0 < length create_weighting_page" by (simp add: page_len)
  have r: "rb1 (create_weighting_page ! 0) = ''Mental Demand''" "rb2 (create_weighting_page ! 0) = ''Physical Demand''"
    by (simp_all add: create_weighting_page_def FACTORS_def)
  show ?thesis
    using h1 h3 weighting_page_rows [OF h1 h2 h3, of Rb1] unfolding radio.case r by blast
qed

subsection \<open>The weights after a click\<close>

text \<open>
  Claim C4. Whatever the choices \<open>gs\<close> were, after a click on a button of row \<open>i\<close> the
  weights have exactly the six factors as keys, and each factor's weight is the number of
  rows whose checked button is that factor's, counted in the rows as they are after the
  click.
\<close>
theorem click_recounts:
  assumes "button_groups app = Some gs" and "i < length gs"
  shows "\<exists>app' warn gs'. click i b app = Inr (app', warn)
           \<and> gs' = gs[i := (gs ! i)\<lparr>checked := Some b\<rparr>]
           \<and> button_groups app' = Some gs'
           \<and> dict_keys (weights app') = FACTORS
           \<and> (\<forall>f \<in> set FACTORS.
                 dict_item (weights app') f
                   = Inr (int (card {j. j < length gs' \<and> checkedButton (gs' ! j) = Some f})))"
proof -
  let ?gs = "gs[i := (gs ! i)\<lparr>checked := Some b\<rparr>]"
  let ?app = "app\<lparr>button_groups := Some ?gs\<rparr>"
  let ?w = "map (\<lambda>f. (f, tally ?gs f)) FACTORS"
  have c: "click i b app = update_weights ?app"
    using assms by (simp add: click_def)
  have u: "update_weights ?app = Inr (?app\<lparr>weights := ?w\<rparr>, 15 < (\<Sum>f\<leftarrow>FACTORS. tally ?gs f))"
    by (rule update_weights_tally) simp
  have k: "dict_keys ?w = FACTORS" by (simp add: dict_keys_def comp_def)
  have v: "dict_item ?w f = Inr (int (card {j. j < length ?gs \<and> checkedButton (?gs ! j) = Some f}))"
    if "f \<in> set FACTORS" for f
    using that by (simp add: dict_item_def map_of_comp tally_card del: length_list_update)
  show ?thesis
    using c u k v by (intro exI [of _ "?app\<lparr>weights := ?w\<rparr>"] exI [of _ "15 < (\<Sum>f\<leftarrow>FACTORS. tally ?gs f)"] exI [of _ ?gs]) simp
qed

text \<open>
  The first click of a survey, on Mental Demand in the first row: its weight becomes 1.
\<close>

theorem click_recounts_witness:
  "button_groups (TLXApp_init True) = Some create_weighting_page
   \<and> (0::nat) < length create_weighting_page
   \<and> click 0 Rb1 (TLXApp_init True) = Inr ((TLXApp_init True)
      \<lparr>weights := [(''Mental Demand'', 1), (''Physical Demand'', 0), (''Temporal Demand'', 0),
                   (''Performance'', 0), (''Effort'', 0), (''Frustration'', 0)],
       button_groups := Some (create_weighting_page[0 := \<lparr>rb1 = ''Mental Demand'', rb2 = ''Physical Demand'', checked = Some Rb1\<rparr>])\<rparr>, False)
   \<and> (\<exists>app' warn gs'. click 0 Rb1 (TLXApp_init True) = Inr (app', warn)
           \<and> gs' = create_weighting_page[0 := (create_weighting_page ! 0)\<lparr>checked := Some Rb1\<rparr>]
           \<and> button_groups app' = Some gs'
           \<and> dict_keys (weights app') = FACTORS
           \<and> (\<forall>f \<in> set FACTORS.
                 dict_item (weights app') f
                   = Inr (int (card {j. j < length gs' \<and> checkedButton (gs' ! j) = Some f}))))"
proof -
  have h1: "button_groups (TLXApp_init True) = Some create_weighting_page"
    by (simp add: TLXApp_init_def)
  have h2: "0 < length create_weighting_page" by (simp add: page_len)
  have e: "click 0 Rb1 (TLXApp_init True) = Inr ((TLXApp_init True)
      \<lparr>weights := [(''Mental Demand'', 1), (''Physical Demand'', 0), (''Temporal Demand'', 0),
                   (''Performance'', 0), (''Effort'', 0), (''Frustration'', 0)],
       button_groups := Some (create_weighting_page[0 := \<lparr>rb1 = ''Mental Demand'', rb2 = ''Physical Demand'', checked = Some Rb1\<rparr>])\<rparr>, False)"
    by code_simp
  show ?thesis
    using h1 h2 e click_recounts [OF h1 h2, of Rb1] by blast
qed

text \<open>
  Each row adds one to at most one factor, so the weights sum to the number of rows whose
  checked button carries the name of a factor.
\<close>

lemma indicator_sum:
  "distinct ks \<Longrightarrow>
     (\<Sum>f\<leftarrow>ks. if c = Some f then 1 else (0::int)) = (if \<exists>f \<in> set ks. c = Some f then 1 else 0)"
proof (induction ks)
  case Nil
  then show ?case by simp
next
  case (Cons k ks)
  show ?case
  proof (cases "c = Some k")
    case True
    then have "\<not> (\<exists>f \<in> set ks. c = Some f)" using Cons.prems by auto
    then show ?thesis using True Cons by simp
  next
    case False
    then show ?thesis using Cons by simp
  qed
qed

lemma tally_Cons:
  "tally (g # gs) f = (if checkedButton g = Some f then 1 else 0) + tally gs f"
  by (simp add: tally_def)

lemma tally_sum_filter:
  "distinct ks \<Longrightarrow>
     (\<Sum>f\<leftarrow>ks. tally gs f) = int (length (filter (\<lambda>g. \<exists>f \<in> set ks. checkedButton g = Some f) gs))"
proof (induction gs)
  case Nil
  then show ?case by (simp add: tally_def)
next
  case (Cons g gs)
  have "(\<Sum>f\<leftarrow>ks. tally (g # gs) f)
      = (\<Sum>f\<leftarrow>ks. if checkedButton g = Some f then 1 else 0) + (\<Sum>f\<leftarrow>ks. tally gs f)"
    by (simp add: tally_Cons sum_list_addf)
  then show ?case using indicator_sum [OF Cons.prems, of "checkedButton g"] Cons by simp
qed

lemma tally_sum_card:
  "distinct ks \<Longrightarrow>
     (\<Sum>f\<leftarrow>ks. tally gs f)
       = int (card {j. j < length gs \<and> (\<exists>f \<in> set ks. checkedButton (gs ! j) = Some f)})"
  by (simp add: tally_sum_filter length_filter_conv_card)

text \<open>
  Claim C7. \<open>update_weights\<close> shows the warning exactly when more than 15 rows have a
  factor's button checked, which is when the weights it has just computed sum to more than
  15. With or without the warning it returns normally, each factor's weight is the number
  of rows in which it is checked, nothing else in the state has changed, and Finish still
  builds its record from that state.
\<close>

theorem warning_iff_over_15:
  assumes "button_groups app = Some gs" and "length (pages app) = length FACTORS"
  shows "\<exists>app' warn. update_weights app = Inr (app', warn)
           \<and> (warn \<longleftrightarrow>
                 15 < card {j. j < length gs \<and> (\<exists>f \<in> set FACTORS. checkedButton (gs ! j) = Some f)})
           \<and> (warn \<longleftrightarrow> 15 < sum_list (dict_values (weights app')))
           \<and> (\<forall>f \<in> set FACTORS.
                 dict_item (weights app') f
                   = Inr (int (card {j. j < length gs \<and> checkedButton (gs ! j) = Some f})))
           \<and> weights app' = map (\<lambda>f. (f, tally gs f)) FACTORS
           \<and> app' = app\<lparr>weights := weights app'\<rparr>
           \<and> (\<exists>app'' rd. build_result now app' = Inr (app'', rd) \<and> res_ratings rd = ratings app''
                  \<and> (use_weighting app \<longrightarrow> res_weights rd = weights app'))"
proof -
  let ?w = "map (\<lambda>f. (f, tally gs f)) FACTORS"
  let ?app = "app\<lparr>weights := ?w\<rparr>"
  let ?warn = "15 < (\<Sum>f\<leftarrow>FACTORS. tally gs f)"
  have u: "update_weights app = Inr (?app, ?warn)"
    by (rule update_weights_tally [OF assms(1)])
  have s: "sum_list (dict_values ?w) = (\<Sum>f\<leftarrow>FACTORS. tally gs f)"
    by (simp add: dict_values_def comp_def)
  have c: "?warn \<longleftrightarrow>
      15 < card {j. j < length gs \<and> (\<exists>f \<in> set FACTORS. checkedButton (gs ! j) = Some f)}"
    by (simp add: tally_sum_card [OF distinct_FACTORS])
  have v: "\<forall>f \<in> set FACTORS.
      dict_item ?w f = Inr (int (card {j. j < length gs \<and> checkedButton (gs ! j) = Some f}))"
    by (simp add: dict_item_def map_of_comp tally_card)
  obtain R where R: "map get_value (pages ?app) = map R FACTORS"
    using ratings_exist [of "pages ?app"] assms(2) by auto
  have b: "\<exists>app'' rd. build_result now ?app = Inr (app'', rd) \<and> res_ratings rd = ratings app''
          \<and> (use_weighting app \<longrightarrow> res_weights rd = ?w)"
  proof (cases "use_weighting app")
    case True
    then have uw: "use_weighting ?app" by simp
    have W: "map_of (weights ?app) f = Some (tally gs f)" if "f \<in> set FACTORS" for f
      using that by (simp add: map_of_comp)
    show ?thesis using build_result_weighted [OF uw R W, of now] by simp
  next
    case False
    then have uw: "\<not> use_weighting ?app" by simp
    show ?thesis using build_result_unweighted [OF uw R, of now] False by simp
  qed
  show ?thesis
    using u s c v b by (intro exI [of _ ?app] exI [of _ ?warn]) simp
qed

text \<open>
  A fresh survey, where recomputing the weights gives zeros and no warning; and a state
  with sixteen rows, the fifteen of the page and one more, the first button checked in
  each: the weights are 6, 4, 3, 2, 1, 0, the warning is shown, the weights stay, and Finish
  records them.
\<close>

theorem warning_iff_over_15_witness:
  "update_weights (TLXApp_init True) = Inr (TLXApp_init True, False)
   \<and> update_weights
        ((TLXApp_init True)\<lparr>button_groups := Some (map (\<lambda>g. g\<lparr>checked := Some Rb1\<rparr>)
           (create_weighting_page
              @ [\<lparr>rb1 = ''Mental Demand'', rb2 = ''Physical Demand'', checked = None\<rparr>]))\<rparr>)
       = Inr ((TLXApp_init True)
               \<lparr>weights := [(''Mental Demand'', 6), (''Physical Demand'', 4), (''Temporal Demand'', 3),
                            (''Performance'', 2), (''Effort'', 1), (''Frustration'', 0)],
                button_groups := Some (map (\<lambda>g. g\<lparr>checked := Some Rb1\<rparr>)
                  (create_weighting_page
                     @ [\<lparr>rb1 = ''Mental Demand'', rb2 = ''Physical Demand'', checked = None\<rparr>]))\<rparr>,
              True)
   \<and> (\<exists>app' app'' rd.
          update_weights
            ((TLXApp_init True)\<lparr>button_groups := Some (map (\<lambda>g. g\<lparr>checked := Some Rb1\<rparr>)
               (create_weighting_page
                  @ [\<lparr>rb1 = ''Mental Demand'', rb2 = ''Physical Demand'', checked = None\<rparr>]))\<rparr>)
            = Inr (app', True)
        \<and> build_result ''2025-01-01T12:00:00'' app' = Inr (app'', rd)
        \<and> res_weights rd = [(''Mental Demand'', 6), (''Physical Demand'', 4), (''Temporal Demand'', 3),
                             (''Performance'', 2), (''Effort'', 1), (''Frustration'', 0)])"
proof -
  let ?gs = "map (\<lambda>g. g\<lparr>checked := Some Rb1\<rparr>)
           (create_weighting_page
              @ [\<lparr>rb1 = ''Mental Demand'', rb2 = ''Physical Demand'', checked = None\<rparr>])"
  let ?app = "(TLXApp_init True)\<lparr>button_groups := Some ?gs\<rparr>"
  let ?w = "[(''Mental Demand'', 6), (''Physical Demand'', 4), (''Temporal Demand'', 3),
             (''Performance'', 2), (''Effort'', 1), (''Frustration'', 0 :: int)]"
  have h1: "button_groups (TLXApp_init True) = Some create_weighting_page"
    by (simp add: TLXApp_init_def)
  have h2: "length (pages (TLXApp_init True)) = length FACTORS"
    by (simp add: TLXApp_init_def)
  have e0: "update_weights (TLXApp_init True) = Inr (TLXApp_init True, False)"
    by code_simp
  have g1: "button_groups ?app = Some ?gs" by simp
  have g2: "length (pages ?app) = length FACTORS" by (simp add: TLXApp_init_def)
  have uw: "use_weighting ?app" by (simp add: TLXApp_init_def)
  have e1: "update_weights ?app = Inr ((TLXApp_init True)\<lparr>weights := ?w, button_groups := Some ?gs\<rparr>, True)"
    by code_simp
  obtain app' warn app'' rd where a: "update_weights ?app = Inr (app', warn)"
    "build_result ''2025-01-01T12:00:00'' app' = Inr (app'', rd)"
    "use_weighting ?app \<longrightarrow> res_weights rd = weights app'"
    using warning_iff_over_15 [OF g1 g2, of "''2025-01-01T12:00:00''"] by blast
  have "app' = (TLXApp_init True)\<lparr>weights := ?w, button_groups := Some ?gs\<rparr>" "warn = True"
    using a(1) e1 by simp_all
  then have "update_weights ?app = Inr (app', True)" "res_weights rd = ?w"
    using a(1,3) uw by simp_all
  then show ?thesis
    using e0 e1 a(2) warning_iff_over_15 [OF h1 h2, of "''2025-01-01T12:00:00''"] by blast
qed

text \<open>
  The weights sum to at most the number of rows, so a page of at most 15 rows, such as the
  one \<open>create_weighting_page\<close> builds, never shows the warning, whatever is checked on it.
\<close>

lemma tally_sum_le: "distinct ks \<Longrightarrow> (\<Sum>f\<leftarrow>ks. tally gs f) \<le> int (length gs)"
  by (simp add: tally_sum_filter)

lemma no_warning_up_to_15_rows:
  assumes "button_groups app = Some gs" and "length gs \<le> 15"
  shows "\<exists>app'. update_weights app = Inr (app', False)"
  using update_weights_tally [OF assms(1)] tally_sum_le [OF distinct_FACTORS, of gs] assms(2)
  by simp

subsection \<open>The log files\<close>

text \<open>
  The keys of the row dictionary are the field names, so \<open>writerow\<close> never raises, and the
  row lists the record's values column by column.
\<close>

lemma writerow_weighted:
  "writerow (fieldnames True) (csv_data True rd)
     = Inr ([CStr (res_timestamp rd)] @ map (rating_cell (res_ratings rd)) FACTORS
            @ map (rating_cell (res_adjusted_ratings rd)) FACTORS
            @ [CNum (res_weighted_rating rd)])"
  by (simp add: writerow_def fieldnames_def csv_data_def FACTORS_def dict_get_def dict_keys_def)

lemma writerow_unweighted:
  "writerow (fieldnames False) (csv_data False rd)
     = Inr ([CStr (res_timestamp rd)] @ map (rating_cell (res_ratings rd)) FACTORS
            @ [CNum (res_weighted_rating rd)])"
  by (simp add: writerow_def fieldnames_def csv_data_def FACTORS_def dict_get_def dict_keys_def)

lemma writerow_csv_data:
  "writerow (fieldnames uw) (csv_data uw rd)
     = Inr ([CStr (res_timestamp rd)] @ map (rating_cell (res_ratings rd)) FACTORS
            @ (if uw then map (rating_cell (res_adjusted_ratings rd)) FACTORS else [])
            @ [CNum (res_weighted_rating rd)])"
  by (cases uw) (simp_all add: writerow_weighted writerow_unweighted)

lemma save_to_files_ok:
  assumes "json_load fs = Inr data"
  shows "save_to_files uw rd fs =
     Inr (fs\<lparr>json_file := Some (JArray (data @ [rd])),
             csv_file := Some ((case csv_file fs of
                                  None \<Rightarrow> [writeheader (fieldnames uw)]
                                | Some rows \<Rightarrow> rows)
                               @ [[CStr (res_timestamp rd)] @ map (rating_cell (res_ratings rd)) FACTORS
                                  @ (if uw then map (rating_cell (res_adjusted_ratings rd)) FACTORS else [])
                                  @ [CNum (res_weighted_rating rd)]])\<rparr>)"
  using assms
  by (simp only: save_to_files_def writerow_csv_data Let_def)
     (simp split: option.splits)

lemma save_all_existing:
  assumes "json_load fs = Inr data" and "csv_file fs = Some rows"
  shows "\<exists>fs'. save_all uw rds fs = Inr fs'
           \<and> json_load fs' = Inr (data @ rds)
           \<and> csv_file fs' = Some (rows @ map (\<lambda>rd. [CStr (res_timestamp rd)]
                   @ map (rating_cell (res_ratings rd)) FACTORS
                   @ (if uw then map (rating_cell (res_adjusted_ratings rd)) FACTORS else [])
                   @ [CNum (res_weighted_rating rd)]) rds)"
  using assms
proof (induction rds arbitrary: fs data rows)
  case Nil
  then show ?case by simp
next
  case (Cons rd rds)
  let ?row = "[CStr (res_timestamp rd)] @ map (rating_cell (res_ratings rd)) FACTORS
                   @ (if uw then map (rating_cell (res_adjusted_ratings rd)) FACTORS else [])
                   @ [CNum (res_weighted_rating rd)]"
  let ?fs = "fs\<lparr>json_file := Some (JArray (data @ [rd])), csv_file := Some (rows @ [?row])\<rparr>"
  have s: "save_to_files uw rd fs = Inr ?fs"
    using save_to_files_ok [OF Cons.prems(1), of uw rd] Cons.prems(2) by simp
  have j: "json_load ?fs = Inr (data @ [rd])" by (simp add: json_load_def)
  have c: "csv_file ?fs = Some (rows @ [?row])" by simp
  show ?case
    using Cons.IH [OF j c] s by simp
qed

text \<open>
  Claim C5. When the JSON log holds an array of \<open>N\<close> records, or is absent (\<open>N = 0\<close>),
  \<open>save_to_files\<close> succeeds and leaves an array of \<open>N + 1\<close> records: the first \<open>N\<close> are the
  old ones, the last is the new one, and loading the file again returns exactly that array.
  For an empty array or an absent file this is the one-element array of the new record. The
  file's text is not modelled, so that \<open>json.load\<close> returns what \<open>json.dump\<close> was given is
  part of the model. A file that exists with no text in it is not an empty array: loading
  it raises.
\<close>
theorem json_append:
  assumes "json_file fs = Some (JArray records) \<or> (json_file fs = None \<and> records = [])"
  shows "\<exists>fs' records'. save_to_files uw rd fs = Inr fs'
           \<and> json_file fs' = Some (JArray records')
           \<and> json_load fs' = Inr records'
           \<and> length records' = length records + 1
           \<and> take (length records) records' = records
           \<and> last records' = rd
           \<and> records' = records @ [rd]"
proof -
  have "json_load fs = Inr records"
    using assms by (auto simp: json_load_def)
  then show ?thesis
    using save_to_files_ok [of fs records uw rd] by (simp add: json_load_def)
qed

text \<open>
  Claim C6. Appending \<open>N \<ge> 1\<close> records in one weighting mode, starting without a CSV file
  (and with a JSON log that loads), leaves one header row followed by one row for each
  record, in order. The header is \<open>timestamp\<close>, the six factors, the six \<open>adjusted_\<close> names
  when weighting is enabled, and \<open>weighted_rating\<close>; each row has the record's values in
  these columns, and every row of the file has 14 cells with weighting and 8 without.
\<close>
theorem csv_header_once:
  assumes "csv_file fs = None"
    and "json_file fs = None \<or> (\<exists>records. json_file fs = Some (JArray records))"
    and "rds \<noteq> []"
  shows "\<exists>fs' header rows. save_all uw rds fs = Inr fs'
           \<and> csv_file fs' = Some (header # rows)
           \<and> header = map CStr ([''timestamp''] @ FACTORS
                 @ (if uw then map (\<lambda>factor. ''adjusted_'' @ factor) FACTORS else [])
                 @ [''weighted_rating''])
           \<and> rows = map (\<lambda>rd. [CStr (res_timestamp rd)]
                   @ map (rating_cell (res_ratings rd)) FACTORS
                   @ (if uw then map (rating_cell (res_adjusted_ratings rd)) FACTORS else [])
                   @ [CNum (res_weighted_rating rd)]) rds
           \<and> length rows = length rds
           \<and> (\<forall>row \<in> set (header # rows). length row = (if uw then 14 else 8))"
proof -
  obtain rd rest where rds: "rds = rd # rest" using assms(3) by (cases rds) auto
  obtain data where data: "json_load fs = Inr data"
    using assms(2) by (auto simp: json_load_def)
  let ?row = "\<lambda>rd. [CStr (res_timestamp rd)] @ map (rating_cell (res_ratings rd)) FACTORS
                   @ (if uw then map (rating_cell (res_adjusted_ratings rd)) FACTORS else [])
                   @ [CNum (res_weighted_rating rd)]"
  let ?header = "writeheader (fieldnames uw)"
  let ?fs = "fs\<lparr>json_file := Some (JArray (data @ [rd])), csv_file := Some ([?header] @ [?row rd])\<rparr>"
  have s: "save_to_files uw rd fs = Inr ?fs"
    using save_to_files_ok [OF data, of uw rd] assms(1) by simp
  have j: "json_load ?fs = Inr (data @ [rd])" by (simp add: json_load_def)
  have c: "csv_file ?fs = Some ([?header] @ [?row rd])" by simp
  obtain fs' where fs': "save_all uw rest ?fs = Inr fs'"
    "csv_file fs' = Some (([?header] @ [?row rd]) @ map ?row rest)"
    using save_all_existing [OF j c, of uw rest] by blast
  have all: "save_all uw rds fs = Inr fs'" using rds s fs'(1) by simp
  have csv: "csv_file fs' = Some (?header # map ?row rds)" using fs'(2) rds by simp
  have hd: "?header = map CStr ([''timestamp''] @ FACTORS
                 @ (if uw then map (\<lambda>factor. ''adjusted_'' @ factor) FACTORS else [])
                 @ [''weighted_rating''])"
    by (simp add: writeheader_def fieldnames_def)
  have len: "\<forall>row \<in> set (?header # map ?row rds). length row = (if uw then 14 else 8)"
    by (auto simp: writeheader_def fieldnames_def length_FACTORS)
  show ?thesis
    using all csv hd len
    by (intro exI [of _ fs'] exI [of _ ?header] exI [of _ "map ?row rds"]) simp
qed


text \<open>A second record appended to a log of one.\<close>

theorem json_append_witness:
  "(json_file \<lparr>json_file = Some (JArray
        [\<lparr>res_timestamp = ''2025-01-01T12:00:00'', res_ratings = map (\<lambda>f. (f, 50)) FACTORS,
          res_weights = [], res_adjusted_ratings = [], res_weighted_rating = 50\<rparr>]), csv_file = None\<rparr>
     = Some (JArray
        [\<lparr>res_timestamp = ''2025-01-01T12:00:00'', res_ratings = map (\<lambda>f. (f, 50)) FACTORS,
          res_weights = [], res_adjusted_ratings = [], res_weighted_rating = 50\<rparr>]))
   \<and> (\<exists>fs'. save_to_files False
          \<lparr>res_timestamp = ''2025-01-02T09:30:00'', res_ratings = map (\<lambda>f. (f, 40)) FACTORS,
           res_weights = [], res_adjusted_ratings = [], res_weighted_rating = 40\<rparr>
          \<lparr>json_file = Some (JArray
            [\<lparr>res_timestamp = ''2025-01-01T12:00:00'', res_ratings = map (\<lambda>f. (f, 50)) FACTORS,
              res_weights = [], res_adjusted_ratings = [], res_weighted_rating = 50\<rparr>]), csv_file = None\<rparr>
          = Inr fs'
        \<and> json_load fs' = Inr
            [\<lparr>res_timestamp = ''2025-01-01T12:00:00'', res_ratings = map (\<lambda>f. (f, 50)) FACTORS,
              res_weights = [], res_adjusted_ratings = [], res_weighted_rating = 50\<rparr>,
             \<lparr>res_timestamp = ''2025-01-02T09:30:00'', res_ratings = map (\<lambda>f. (f, 40)) FACTORS,
              res_weights = [], res_adjusted_ratings = [], res_weighted_rating = 40\<rparr>])"
proof -
  let ?a = "\<lparr>res_timestamp = ''2025-01-01T12:00:00'', res_ratings = map (\<lambda>f. (f, 50)) FACTORS,
          res_weights = [], res_adjusted_ratings = [], res_weighted_rating = 50\<rparr>"
  let ?b = "\<lparr>res_timestamp = ''2025-01-02T09:30:00'', res_ratings = map (\<lambda>f. (f, 40)) FACTORS,
           res_weights = [], res_adjusted_ratings = [], res_weighted_rating = 40\<rparr>"
  let ?fs = "\<lparr>json_file = Some (JArray [?a]), csv_file = None\<rparr>"
  have h: "json_file ?fs = Some (JArray [?a]) \<or> (json_file ?fs = None \<and> [?a] = [])" by simp
  show ?thesis using json_append [OF h, of False ?b] by auto
qed

text \<open>Two records appended to a fresh log, weighting disabled.\<close>

theorem csv_header_once_witness:
  "csv_file \<lparr>json_file = None, csv_file = None\<rparr> = None
   \<and> (\<exists>fs' rows. save_all False
          [\<lparr>res_timestamp = ''2025-01-01T12:00:00'', res_ratings = map (\<lambda>f. (f, 50)) FACTORS,
            res_weights = [], res_adjusted_ratings = [], res_weighted_rating = 50\<rparr>,
           \<lparr>res_timestamp = ''2025-01-02T09:30:00'', res_ratings = map (\<lambda>f. (f, 40)) FACTORS,
            res_weights = [], res_adjusted_ratings = [], res_weighted_rating = 40\<rparr>]
          \<lparr>json_file = None, csv_file = None\<rparr> = Inr fs'
        \<and> csv_file fs' = Some (map CStr (''timestamp'' # FACTORS @ [''weighted_rating'']) # rows)
        \<and> length rows = 2
        \<and> (\<forall>row \<in> set rows. length row = 8))"
proof -
  let ?a = "\<lparr>res_timestamp = ''2025-01-01T12:00:00'', res_ratings = map (\<lambda>f. (f, 50)) FACTORS,
          res_weights = [], res_adjusted_ratings = [], res_weighted_rating = 50\<rparr>"
  let ?b = "\<lparr>res_timestamp = ''2025-01-02T09:30:00'', res_ratings = map (\<lambda>f. (f, 40)) FACTORS,
           res_weights = [], res_adjusted_ratings = [], res_weighted_rating = 40\<rparr>"
  let ?fs = "\<lparr>json_file = None, csv_file = None\<rparr>"
  have h1: "csv_file ?fs = None" by simp
  have h2: "json_file ?fs = None \<or> (\<exists>records. json_file ?fs = Some (JArray records))" by simp
  have h3: "[?a, ?b] \<noteq> []" by simp
  show ?thesis using csv_header_once [OF h1 h2 h3, of False] by auto
qed

text \<open>A JSON file that does not hold an array stops the save before anything is written.\<close>

lemma save_to_files_bad_json:
  "json_file fs = Some JMalformed \<Longrightarrow> save_to_files uw rd fs = Inl JSONDecodeError"
  "json_file fs = Some JNotArray \<Longrightarrow> save_to_files uw rd fs = Inl AttributeError"
  by (simp_all add: save_to_files_def json_load_def)

end
